theory Spec2Isabelle
  imports Main "HOL-Library.Word" "HOL-Library.AList"
begin

section \<open>Data model of pool/workshop.go\<close>

text \<open>
  A \<open>Worker\<close> is a Go interface value: \<open>None\<close> is the nil interface, \<open>Some i\<close> the
  worker object with identity \<open>i\<close>. Calling a method on the nil interface panics.
  A \<open>*workerInfo\<close> is an address into \<open>heap\<close>; \<open>mostFree\<close> and the values of the
  map \<open>infos\<close> are such addresses, so that both may name the same cell and \<open>mostFree\<close>
  may outlive the map entry. \<open>infos = None\<close> is the nil map that \<open>Close\<close> leaves
  behind: it reads as empty and panics on assignment.
\<close>

type_synonym Worker = "nat option"
type_synonym addr = nat
type_synonym int32 = "32 word"
type_synonym uint64 = "64 word"

record workerInfo =
  worker :: Worker
  jobNum :: int32
  idleExpire :: int
  wg :: int

record WorkshopStats =
  Worker :: int32
  Idle :: int32
  Created :: uint64
  Hire :: uint64
  Fire :: uint64
  Doing :: int32
  MostUsed :: int32
  LeastUsed :: int32

text \<open>
  \<open>w_wg\<close> is the field \<open>wg\<close> of the Workshop (a \<open>sync.WaitGroup\<close> held by value,
  modelled by its counter); \<open>closeCh\<close> is \<open>True\<close> once the channel is closed.
  \<open>heap\<close>, \<open>nextAddr\<close> are the store of \<open>workerInfo\<close> cells; \<open>ticks\<close> counts the calls
  made so far to the outside world (factory, \<open>Health\<close>, clock); \<open>closedLog\<close> records
  every \<open>Close()\<close> invoked on a worker, in order, and \<open>fnLog\<close> every call that
  \<open>Callback\<close> makes of the function it is given.
\<close>

record Workshop =
  maxQuota :: int
  maxIdleDuration :: int
  infos :: "(Worker \<times> addr) list option"
  mostFree :: "addr option"
  stats :: WorkshopStats
  statsReader :: WorkshopStats
  w_wg :: int
  closeCh :: bool
  heap :: "addr \<Rightarrow> workerInfo"
  nextAddr :: addr
  ticks :: nat
  closedLog :: "nat list"
  fnLog :: "Worker list"

datatype error = ErrWorkshopClosed | FactoryError string

text \<open>What one call of \<open>newWorkerFunc\<close> does: return a worker, return an error, or panic.\<close>

datatype fres = FOk Worker | FErr string | FPanic string

text \<open>
  The outside world of one operation: the answer of the \<open>n\<close>-th outside call, were it
  a health probe of worker \<open>i\<close>, a factory call, or a reading of the coarse clock.
\<close>

record env =
  Health :: "nat \<Rightarrow> nat \<Rightarrow> bool"
  newWorkerFunc :: "nat \<Rightarrow> fres"
  FloorTimeNow :: "nat \<Rightarrow> int"
  CeilingTimeNow :: "nat \<Rightarrow> int"

text \<open>
  An operation returns a value and the new pool, or panics (no \<open>recover\<close> outside
  \<open>addFn\<close>, so the panic leaves the caller), or blocks for ever.
\<close>

datatype 'a result = Returned 'a Workshop | Panic string | Blocked

definition defaultWorkerMaxQuota :: int where
  "defaultWorkerMaxQuota = 64"

definition defaultWorkerMaxIdleDuration :: int where
  "defaultWorkerMaxIdleDuration = 3 * 60 * 1000000000"

definition MaxInt32 :: int32 where
  "MaxInt32 = 2147483647"

subsection \<open>The map \<open>infos\<close>\<close>

definition entries :: "Workshop \<Rightarrow> (Worker \<times> addr) list" where
  "entries s = (case infos s of None \<Rightarrow> [] | Some xs \<Rightarrow> xs)"

definition len_infos :: "Workshop \<Rightarrow> int" where
  "len_infos s = int (length (entries s))"

definition lookup_infos :: "Workshop \<Rightarrow> Worker \<Rightarrow> addr option" where
  "lookup_infos s k = map_of (entries s) k"

definition delete_infos :: "Worker \<Rightarrow> Workshop \<Rightarrow> Workshop" where
  "delete_infos k s = s\<lparr>infos := map_option (AList.delete k) (infos s)\<rparr>"

definition tick :: "Workshop \<Rightarrow> Workshop" where
  "tick s = s\<lparr>ticks := Suc (ticks s)\<rparr>"

subsection \<open>Statistics\<close>

definition writeStats :: "Workshop \<Rightarrow> Workshop" where
  "writeStats s = s\<lparr>statsReader := stats s\<rparr>"

definition hireOne :: "WorkshopStats \<Rightarrow> WorkshopStats" where
  "hireOne st = (let st1 = st\<lparr>Hire := Hire st + 1\<rparr>
                 in st1\<lparr>Doing := ucast (Hire st1 - Fire st1)\<rparr>)"

definition fireOne :: "WorkshopStats \<Rightarrow> WorkshopStats" where
  "fireOne st = (let st1 = st\<lparr>Fire := Fire st + 1\<rparr>
                 in st1\<lparr>Doing := ucast (Hire st1 - Fire st1)\<rparr>)"

definition Stats :: "Workshop \<Rightarrow> WorkshopStats" where
  "Stats s = statsReader s"

definition zeroStats :: WorkshopStats where
  "zeroStats = \<lparr>Worker = 0, Idle = 0, Created = 0, Hire = 0, Fire = 0, Doing = 0,
                MostUsed = 0, LeastUsed = 0\<rparr>"

definition zeroInfo :: workerInfo where
  "zeroInfo = \<lparr>worker = None, jobNum = 0, idleExpire = 0, wg = 0\<rparr>"

subsection \<open>Construction\<close>

definition NewWorkshop :: "int \<Rightarrow> int \<Rightarrow> Workshop" where
  "NewWorkshop q d =
     \<lparr>maxQuota = (if q \<le> 0 then defaultWorkerMaxQuota else q),
      maxIdleDuration = (if d \<le> 0 then defaultWorkerMaxIdleDuration else d),
      infos = Some [], mostFree = None, stats = zeroStats, statsReader = zeroStats,
      w_wg = 0, closeCh = False, heap = (\<lambda>_. zeroInfo), nextAddr = 0, ticks = 0,
      closedLog = [], fnLog = []\<rparr>"

subsection \<open>Cells of \<open>workerInfo\<close>\<close>

definition map_info :: "addr \<Rightarrow> (workerInfo \<Rightarrow> workerInfo) \<Rightarrow> Workshop \<Rightarrow> Workshop" where
  "map_info a f s = s\<lparr>heap := (heap s)(a := f (heap s a))\<rparr>"

definition info_worker :: "Workshop \<Rightarrow> addr \<Rightarrow> Worker" where
  "info_worker s a = worker (heap s a)"

definition info_jobNum :: "Workshop \<Rightarrow> addr \<Rightarrow> int32" where
  "info_jobNum s a = jobNum (heap s a)"

subsection \<open>\<open>updateFreeLocked\<close>\<close>

text \<open>
  The loop \<open>for _, info := range w.infos\<close> keeps the first cell whose \<open>jobNum\<close> is
  strictly below the one kept so far (signed comparison of \<open>int32\<close>). Go leaves the
  order of a map iteration open; the order of the list \<open>entries\<close> stands for it.
\<close>

fun scanFree :: "(addr \<Rightarrow> workerInfo) \<Rightarrow> addr option \<Rightarrow> (Worker \<times> addr) list \<Rightarrow> addr option" where
  "scanFree h m [] = m"
| "scanFree h m ((k, a) # xs) =
     scanFree h (case m of
                   None \<Rightarrow> Some a
                 | Some b \<Rightarrow> if sint (jobNum (h b)) \<le> sint (jobNum (h a)) then Some b else Some a) xs"

definition updateFreeLocked :: "Workshop \<Rightarrow> Workshop" where
  "updateFreeLocked s =
     (if len_infos s = 0 then s\<lparr>mostFree := None\<rparr>
      else s\<lparr>mostFree := scanFree (heap s) None (entries s)\<rparr>)"

subsection \<open>\<open>addFn\<close>\<close>

text \<open>
  The closure built by \<open>NewWorkshop\<close>. Its deferred \<open>recover\<close> turns a panic of the
  factory, and the panic of the assignment \<open>w.infos[worker] = info\<close> into a nil map,
  into the error result; the named result \<open>info\<close> keeps the value it had then. The new
  cell takes a copy of the Workshop's WaitGroup (\<open>wg: w.wg\<close>).
\<close>

definition addFn :: "env \<Rightarrow> Workshop \<Rightarrow> (addr option \<times> error option) \<times> Workshop" where
  "addFn e s =
     (case newWorkerFunc e (ticks s) of
        FPanic p \<Rightarrow> ((None, Some (FactoryError p)), tick s)
      | FErr m \<Rightarrow> ((None, Some (FactoryError m)), tick s)
      | FOk wk \<Rightarrow>
          (let a = nextAddr s;
               s1 = (tick s)\<lparr>heap := (heap s)(a := \<lparr>worker = wk, jobNum = 0, idleExpire = 0,
                                                     wg = w_wg s\<rparr>),
                             nextAddr := Suc a\<rparr>
           in case infos s1 of
                None \<Rightarrow> ((Some a, Some (FactoryError ''assignment to entry in nil map'')), s1)
              | Some xs \<Rightarrow>
                  ((Some a, None),
                   s1\<lparr>infos := Some (AList.update wk a xs),
                      stats := (stats s1)\<lparr>Created := Created (stats s1) + 1,
                                          Worker := Worker (stats s1) + 1\<rparr>\<rparr>)))"

subsection \<open>\<open>hireLocked\<close>\<close>

text \<open>
  One pass of \<open>hireLocked\<close> from the label \<open>GET\<close> either ends the call or starts over:
  \<open>goto GET\<close> and \<open>return w.hireLocked()\<close> both restart at \<open>GET\<close> with the pool as it is
  then.
\<close>

datatype hire_pass = Again Workshop | Finished "(error + addr) result"

text \<open>Lines 233--244: the health probe of the chosen cell, then \<open>use\<close> and \<open>hireOne\<close>.\<close>

definition probe :: "env \<Rightarrow> addr \<Rightarrow> Workshop \<Rightarrow> hire_pass" where
  "probe e a s =
     (case info_worker s a of
        None \<Rightarrow> Finished (Panic ''nil pointer dereference'')
      | Some i \<Rightarrow>
          (let healthy = Health e (ticks s) i; s1 = tick s
           in if \<not> healthy then
                (let s2 = delete_infos (Some i) s1;
                     s3 = s2\<lparr>stats := (stats s2)\<lparr>Worker := Worker (stats s2) - 1\<rparr>\<rparr>
                 in Again (if info_jobNum s3 a = 0
                           then s3\<lparr>stats := (stats s3)\<lparr>Idle := Idle (stats s3) - 1\<rparr>\<rparr>
                           else s3))
              else
                (let s2 = map_info a (\<lambda>inf. inf\<lparr>jobNum := jobNum inf + 1, wg := wg inf + 1\<rparr>) s1
                 in Finished (Returned (Inr a) (s2\<lparr>stats := hireOne (stats s2)\<rparr>)))))"

definition hire_pass :: "env \<Rightarrow> Workshop \<Rightarrow> hire_pass" where
  "hire_pass e s =
     (if maxQuota s \<le> len_infos s \<or> (case mostFree s of None \<Rightarrow> False | Some a \<Rightarrow> info_jobNum s a = 0)
      then
        (case mostFree s of
           None \<Rightarrow> Finished (Panic ''nil pointer dereference'')
         | Some a \<Rightarrow>
             if info_jobNum s a = 0 then
               (let s1 = s\<lparr>stats := (stats s)\<lparr>Idle := Idle (stats s) - 1\<rparr>\<rparr>;
                    now = FloorTimeNow e (ticks s1);
                    s2 = tick s1
                in if idleExpire (heap s2 a) < now then
                     (case info_worker s2 a of
                        None \<Rightarrow> Finished (Panic ''nil pointer dereference'')
                      | Some i \<Rightarrow>
                          (let s3 = delete_infos (Some i) s2;
                               s4 = s3\<lparr>closedLog := closedLog s3 @ [i]\<rparr>;
                               s5 = s4\<lparr>stats := (stats s4)\<lparr>Worker := Worker (stats s4) - 1\<rparr>\<rparr>
                           in Again (updateFreeLocked s5)))
                   else probe e a (updateFreeLocked s2))
             else probe e a (updateFreeLocked s))
      else
        (case addFn e s of
           ((_, Some err), s1) \<Rightarrow> Finished (Returned (Inl err) s1)
         | ((None, None), s1) \<Rightarrow> Finished (Panic ''nil pointer dereference'')
         | ((Some a, None), s1) \<Rightarrow> probe e a (s1\<lparr>mostFree := Some a\<rparr>)))"

text \<open>
  The passes are repeated until one ends the call. The first argument bounds their
  number; \<open>None\<close> says that the bound was reached before the call ended.
\<close>

fun hireLocked :: "nat \<Rightarrow> env \<Rightarrow> Workshop \<Rightarrow> (error + addr) result option" where
  "hireLocked 0 e s = None"
| "hireLocked (Suc n) e s =
     (case hire_pass e s of
        Again s' \<Rightarrow> hireLocked n e s'
      | Finished r \<Rightarrow> Some r)"

subsection \<open>\<open>Hire\<close>\<close>

definition Workshop_Hire :: "nat \<Rightarrow> env \<Rightarrow> Workshop \<Rightarrow> (error + Worker) result option" where
  "Workshop_Hire n e s =
     (case hireLocked n e s of
        None \<Rightarrow> None
      | Some (Returned (Inl err) s1) \<Rightarrow> Some (Returned (Inl err) (writeStats s1))
      | Some (Returned (Inr a) s1) \<Rightarrow> Some (Returned (Inr (info_worker s1 a)) (writeStats s1))
      | Some (Panic p) \<Rightarrow> Some (Panic p)
      | Some Blocked \<Rightarrow> Some Blocked)"

subsection \<open>\<open>fireLocked\<close> and \<open>Fire\<close>\<close>

text \<open>
  \<open>free\<close> is \<open>info.jobNum--\<close> and \<open>info.wg.Add(-1)\<close>; \<open>Add\<close> panics when the counter of
  the WaitGroup would become negative.
\<close>

definition free :: "addr \<Rightarrow> Workshop \<Rightarrow> unit result" where
  "free a s =
     (let s1 = map_info a (\<lambda>inf. inf\<lparr>jobNum := jobNum inf - 1\<rparr>) s
      in if wg (heap s1 a) - 1 < 0 then Panic ''sync: negative WaitGroup counter''
         else Returned () (map_info a (\<lambda>inf. inf\<lparr>wg := wg inf - 1\<rparr>) s1))"

definition fireLocked :: "env \<Rightarrow> addr \<Rightarrow> Workshop \<Rightarrow> unit result" where
  "fireLocked e a s =
     (let s1 = s\<lparr>stats := fireOne (stats s)\<rparr>
      in case info_worker s1 a of
           None \<Rightarrow> Panic ''nil pointer dereference''
         | Some i \<Rightarrow>
             (let healthy = Health e (ticks s1) i; s2 = tick s1
              in if \<not> healthy then
                   (let s3 = delete_infos (Some i) s2
                    in Returned () (s3\<lparr>stats := (stats s3)\<lparr>Worker := Worker (stats s3) - 1\<rparr>\<rparr>))
                 else
                   (case free a s2 of
                      Panic p \<Rightarrow> Panic p
                    | Blocked \<Rightarrow> Blocked
                    | Returned _ s3 \<Rightarrow>
                        (let jn = info_jobNum s3 a;
                             s4 = (if jn = 0 then
                                     (let now = CeilingTimeNow e (ticks s3);
                                          s3a = map_info a (\<lambda>inf. inf\<lparr>idleExpire := now + maxIdleDuration s3\<rparr>) (tick s3)
                                      in s3a\<lparr>stats := (stats s3a)\<lparr>Idle := Idle (stats s3a) + 1\<rparr>\<rparr>)
                                   else s3)
                         in case mostFree s4 of
                              None \<Rightarrow> Panic ''nil pointer dereference''
                            | Some m \<Rightarrow>
                                if sint (info_jobNum s4 m) \<le> sint jn then Returned () s4
                                else Returned () (s4\<lparr>mostFree := Some a\<rparr>)))))"

definition Workshop_Fire :: "env \<Rightarrow> Worker \<Rightarrow> Workshop \<Rightarrow> unit result" where
  "Workshop_Fire e wk s =
     (case lookup_infos s wk of
        None \<Rightarrow>
          (case wk of
             None \<Rightarrow> Returned () s
           | Some i \<Rightarrow> Returned () (s\<lparr>closedLog := closedLog s @ [i]\<rparr>))
      | Some a \<Rightarrow>
          (case fireLocked e a s of
             Returned _ s1 \<Rightarrow> Returned () (writeStats s1)
           | Panic p \<Rightarrow> Panic p
           | Blocked \<Rightarrow> Blocked))"

subsection \<open>\<open>refreshLocked\<close> and the collector \<open>gc\<close>\<close>

text \<open>
  The loop of \<open>refreshLocked\<close> over the entries present when it starts (it deletes
  only the entry in hand), with the locals \<open>max\<close>, \<open>min\<close> and \<open>shouldUpdate\<close>.
  \<open>None\<close> is the panic of a method call on a nil worker.
\<close>

fun refreshLoop :: "env \<Rightarrow> (Worker \<times> addr) list \<Rightarrow> Workshop \<times> int32 \<times> int32 \<times> bool
                    \<Rightarrow> (Workshop \<times> int32 \<times> int32 \<times> bool) option" where
  "refreshLoop e [] acc = Some acc"
| "refreshLoop e ((k, a) # xs) (s, mx, mn, up) =
     (let tmp = info_jobNum s a;
          keep = (\<lambda>s'. refreshLoop e xs
                          (s', if sint mx < sint tmp then tmp else mx,
                               if sint tmp < sint mn then tmp else mn, up));
          evict = (\<lambda>i s'. (let s1 = delete_infos (Some i) s';
                               s2 = s1\<lparr>closedLog := closedLog s1 @ [i]\<rparr>;
                               s3 = s2\<lparr>stats := (stats s2)\<lparr>Worker := Worker (stats s2) - 1\<rparr>\<rparr>;
                               s4 = s3\<lparr>stats := (stats s3)\<lparr>Idle := Idle (stats s3) - 1\<rparr>\<rparr>
                           in refreshLoop e xs (s4, mx, mn, True)))
      in if tmp = 0 then
           (case info_worker s a of
              None \<Rightarrow> None
            | Some i \<Rightarrow>
                (let healthy = Health e (ticks s) i; s1 = tick s
                 in if \<not> healthy then evict i s1
                    else (let now = FloorTimeNow e (ticks s1); s2 = tick s1
                          in if idleExpire (heap s2 a) < now then evict i s2 else keep s2)))
         else keep s)"

definition refreshLocked :: "env \<Rightarrow> Workshop \<Rightarrow> unit result" where
  "refreshLocked e s =
     (case refreshLoop e (entries s) (s, 0, MaxInt32, False) of
        None \<Rightarrow> Panic ''nil pointer dereference''
      | Some (s1, mx, mn, up) \<Rightarrow>
          (let s2 = (if up then updateFreeLocked s1 else s1);
               mn' = (if mn = MaxInt32 then 0 else mn)
           in Returned () (writeStats (s2\<lparr>stats := (stats s2)\<lparr>LeastUsed := mn', MostUsed := mx\<rparr>\<rparr>))))"

text \<open>One round of \<open>gc\<close> after its sleep: the locked call of \<open>refreshLocked\<close>.\<close>

definition gc_round :: "env \<Rightarrow> Workshop \<Rightarrow> unit result" where
  "gc_round e s = refreshLocked e s"

subsection \<open>\<open>Close\<close>\<close>

text \<open>The loop \<open>for _, info := range w.infos { info.worker.Close() }\<close>.\<close>

fun closeAll :: "(Worker \<times> addr) list \<Rightarrow> Workshop \<Rightarrow> Workshop option" where
  "closeAll [] s = Some s"
| "closeAll ((k, a) # xs) s =
     (case info_worker s a of
        None \<Rightarrow> None
      | Some i \<Rightarrow> closeAll xs (s\<lparr>closedLog := closedLog s @ [i]\<rparr>))"

text \<open>The part of \<open>Close\<close> that runs under the lock, after \<open>w.wg.Wait()\<close> has returned.\<close>

definition Close_locked :: "env \<Rightarrow> Workshop \<Rightarrow> unit result" where
  "Close_locked e s =
     (case closeAll (entries s) s of
        None \<Rightarrow> Panic ''nil pointer dereference''
      | Some s1 \<Rightarrow>
          (let s2 = s1\<lparr>infos := None\<rparr>;
               s3 = s2\<lparr>stats := (stats s2)\<lparr>Idle := 0\<rparr>\<rparr>;
               s4 = s3\<lparr>stats := (stats s3)\<lparr>Worker := 0\<rparr>\<rparr>
           in refreshLocked e s4))"

text \<open>
  The \<open>select\<close> on \<open>closeCh\<close> that opens \<open>Close\<close>: \<open>True\<close> when the channel was closed
  already and \<open>Close\<close> returns at once, otherwise the channel is closed.
\<close>

definition Close_begin :: "Workshop \<Rightarrow> bool \<times> Workshop" where
  "Close_begin s = (if closeCh s then (True, s) else (False, s\<lparr>closeCh := True\<rparr>))"

text \<open>
  \<open>Close\<close> with no other call in between. \<open>w.wg.Wait()\<close> returns when the counter of
  the Workshop's own WaitGroup is zero and blocks otherwise.
\<close>

definition Workshop_Close :: "env \<Rightarrow> Workshop \<Rightarrow> unit result" where
  "Workshop_Close e s =
     (case Close_begin s of
        (True, s1) \<Rightarrow> Returned () s1
      | (False, s1) \<Rightarrow> if w_wg s1 \<noteq> 0 then Blocked else Close_locked e s1)"

subsection \<open>\<open>Callback\<close>\<close>

text \<open>What the function given to \<open>Callback\<close> does with the worker.\<close>

datatype fnres = FnReturn "error option" | FnPanic string

text \<open>
  The first locked section of \<open>Callback\<close>, after the \<open>select\<close> on \<open>closeCh\<close>: it yields
  the error that \<open>Callback\<close> returns, or the cell and the worker that go to \<open>fn\<close>.
\<close>

definition Callback_hire :: "nat \<Rightarrow> env \<Rightarrow> Workshop \<Rightarrow> (error + addr \<times> Worker) result option" where
  "Callback_hire n e s =
     (if closeCh s then Some (Returned (Inl ErrWorkshopClosed) s)
      else
        (case hireLocked n e s of
           None \<Rightarrow> None
         | Some (Returned (Inl err) s1) \<Rightarrow> Some (Returned (Inl err) (writeStats s1))
         | Some (Returned (Inr a) s1) \<Rightarrow> Some (Returned (Inr (a, info_worker s1 a)) (writeStats s1))
         | Some (Panic p) \<Rightarrow> Some (Panic p)
         | Some Blocked \<Rightarrow> Some Blocked))"

text \<open>The deferred function of \<open>Callback\<close>, its second locked section.\<close>

definition Callback_deferred :: "env \<Rightarrow> addr \<Rightarrow> Worker \<Rightarrow> Workshop \<Rightarrow> unit result" where
  "Callback_deferred e a wk s =
     (case lookup_infos s wk of
        None \<Rightarrow>
          (case wk of
             None \<Rightarrow> Panic ''nil pointer dereference''
           | Some i \<Rightarrow> Returned () (s\<lparr>closedLog := closedLog s @ [i]\<rparr>))
      | Some _ \<Rightarrow>
          (case fireLocked e a s of
             Returned _ s1 \<Rightarrow> Returned () (writeStats s1)
           | Panic p \<Rightarrow> Panic p
           | Blocked \<Rightarrow> Blocked))"

text \<open>
  \<open>Callback\<close> with no other call in between: \<open>fn\<close> runs outside the lock, the deferred
  function runs when it has returned or panicked, and a panic of \<open>fn\<close> goes on to the
  caller after it.
\<close>

definition Workshop_Callback :: "nat \<Rightarrow> env \<Rightarrow> env \<Rightarrow> (Worker \<Rightarrow> fnres) \<Rightarrow> Workshop
                                  \<Rightarrow> error option result option" where
  "Workshop_Callback n e e' fn s =
     (case Callback_hire n e s of
        None \<Rightarrow> None
      | Some (Panic p) \<Rightarrow> Some (Panic p)
      | Some Blocked \<Rightarrow> Some Blocked
      | Some (Returned (Inl err) s1) \<Rightarrow> Some (Returned (Some err) s1)
      | Some (Returned (Inr (a, wk)) s1) \<Rightarrow>
          (let s2 = s1\<lparr>fnLog := fnLog s1 @ [wk]\<rparr>
           in case Callback_deferred e' a wk s2 of
                Panic p \<Rightarrow> Some (Panic p)
              | Blocked \<Rightarrow> Some Blocked
              | Returned _ s3 \<Rightarrow>
                  (case fn wk of
                     FnReturn r \<Rightarrow> Some (Returned r s3)
                   | FnPanic p \<Rightarrow> Some (Panic p))))"

section \<open>Runs of the pool\<close>

text \<open>
  The pool's lock makes every locked section one step. \<open>reachable q d s\<close> says that a
  sequence of such steps, each with any answers of the outside world and none of them
  panicking, leads from the Workshop constructed by \<open>NewWorkshop(q, d, _)\<close> to the pool
  \<open>s\<close>: calls of \<open>Hire\<close> and \<open>Fire\<close>, the two locked sections of \<open>Callback\<close> (the second
  one for any cell allocated before) and the call of its function in between, the two
  parts of \<open>Close\<close>, and rounds of the collector.
\<close>

inductive reachable :: "int \<Rightarrow> int \<Rightarrow> Workshop \<Rightarrow> bool" for q d where
  r_new: "reachable q d (NewWorkshop q d)"
| r_hire: "reachable q d s \<Longrightarrow> Workshop_Hire n e s = Some (Returned r s') \<Longrightarrow> reachable q d s'"
| r_fire: "reachable q d s \<Longrightarrow> Workshop_Fire e wk s = Returned u s' \<Longrightarrow> reachable q d s'"
| r_cb_hire: "reachable q d s \<Longrightarrow> Callback_hire n e s = Some (Returned r s') \<Longrightarrow> reachable q d s'"
| r_cb_fn: "reachable q d s \<Longrightarrow> reachable q d (s\<lparr>fnLog := fnLog s @ [wk]\<rparr>)"
| r_cb_deferred: "reachable q d s \<Longrightarrow> a < nextAddr s \<Longrightarrow>
                  Callback_deferred e a (info_worker s a) s = Returned u s' \<Longrightarrow> reachable q d s'"
| r_close_begin: "reachable q d s \<Longrightarrow> reachable q d (snd (Close_begin s))"
| r_close_locked: "reachable q d s \<Longrightarrow> closeCh s \<Longrightarrow> w_wg s = 0 \<Longrightarrow>
                   Close_locked e s = Returned u s' \<Longrightarrow> reachable q d s'"
| r_gc: "reachable q d s \<Longrightarrow> gc_round e s = Returned u s' \<Longrightarrow> reachable q d s'"

section \<open>Worlds used in the examples\<close>

text \<open>
  A world whose workers all answer \<open>h\<close> to \<open>Health()\<close>, whose factory is \<open>f\<close> and whose
  coarse clock stands at \<open>now\<close>; and the factory that returns a new worker at each call
  (the worker made by the \<open>t\<close>-th outside call has identity \<open>t\<close>).
\<close>

definition world :: "bool \<Rightarrow> (nat \<Rightarrow> fres) \<Rightarrow> int \<Rightarrow> env" where
  "world h f now = \<lparr>Health = (\<lambda>_ _. h), newWorkerFunc = f, FloorTimeNow = (\<lambda>_. now),
                     CeilingTimeNow = (\<lambda>_. now)\<rparr>"

definition fresh_worker :: "nat \<Rightarrow> fres" where
  "fresh_worker t = FOk (Some t)"

text \<open>A world in which all workers are healthy but worker \<open>j\<close>.\<close>

definition world_except :: "nat \<Rightarrow> (nat \<Rightarrow> fres) \<Rightarrow> int \<Rightarrow> env" where
  "world_except j f now = \<lparr>Health = (\<lambda>_ i. i \<noteq> j), newWorkerFunc = f, FloorTimeNow = (\<lambda>_. now),
                            CeilingTimeNow = (\<lambda>_. now)\<rparr>"

section \<open>The hint\<close>

text \<open>The second disjunct of the test that opens \<open>hireLocked\<close>: \<open>info != nil && info.jobNum == 0\<close>.\<close>

definition hint_idle :: "Workshop \<Rightarrow> bool" where
  "hint_idle s = (case mostFree s of None \<Rightarrow> False | Some a \<Rightarrow> info_jobNum s a = 0)"

section \<open>Invariants\<close>

text \<open>The registry holds no more entries than the quota allows.\<close>

definition quota_ok :: "Workshop \<Rightarrow> bool" where
  "quota_ok s = (len_infos s \<le> maxQuota s)"

text \<open>
  \<open>Doing\<close> is the difference of \<open>Hire\<close> and \<open>Fire\<close>, computed as the code computes it:
  in \<open>uint64\<close> and converted to \<open>int32\<close>. It holds of the counters and of the published copy.
\<close>

definition doing_ok :: "WorkshopStats \<Rightarrow> bool" where
  "doing_ok st = (Doing st = ucast (Hire st - Fire st))"

definition stats_ok :: "Workshop \<Rightarrow> bool" where
  "stats_ok s = (doing_ok (stats s) \<and> doing_ok (statsReader s))"

text \<open>The nil worker is not a key of the registry.\<close>

definition nil_free :: "Workshop \<Rightarrow> bool" where
  "nil_free s = (lookup_infos s None = None)"

section \<open>The state of the selection loop\<close>

text \<open>
  Every entry of the registry names an allocated cell that holds the entry's own key as
  its worker.
\<close>

definition registry_wf :: "Workshop \<Rightarrow> bool" where
  "registry_wf s = (\<forall>(k, a) \<in> set (entries s). info_worker s a = k \<and> a < nextAddr s)"

text \<open>The hint is dangling when it names a cell that is not the value of its worker's entry.\<close>

definition dangling :: "Workshop \<Rightarrow> bool" where
  "dangling s = (case mostFree s of None \<Rightarrow> False
                 | Some a \<Rightarrow> (info_worker s a, a) \<notin> set (entries s))"

text \<open>What decreases with every pass of \<open>hireLocked\<close> that starts another one.\<close>

definition hire_measure :: "Workshop \<Rightarrow> nat" where
  "hire_measure s = 2 * length (entries s) + (if dangling s then 1 else 0)"

text \<open>
  The world in which a worker that the factory returns at the outside call \<open>t\<close> passes
  the health probe made at the next outside call, which is the probe \<open>hireLocked\<close> makes
  of a new worker.
\<close>

definition newborn_healthy :: "env \<Rightarrow> bool" where
  "newborn_healthy e = (\<forall>t i. newWorkerFunc e t = FOk (Some i) \<longrightarrow> Health e (Suc t) i)"


text \<open>
  At the start of each of the first \<open>n\<close> passes of \<open>hireLocked\<close> the hint is nil or names
  the cell of a registered worker.
\<close>

fun hint_registered_for :: "nat \<Rightarrow> env \<Rightarrow> Workshop \<Rightarrow> bool" where
  "hint_registered_for 0 e s = True"
| "hint_registered_for (Suc n) e s =
     (\<not> dangling s \<and>
      (case hire_pass e s of
         Again s' \<Rightarrow> hint_registered_for n e s'
       | Finished r \<Rightarrow> True))"

section \<open>Invariants of the runs\<close>

lemma hireLocked_preserves:
  assumes again: "\<And>s s'. P s \<Longrightarrow> hire_pass e s = Again s' \<Longrightarrow> P s'"
    and fin: "\<And>s r s'. P s \<Longrightarrow> hire_pass e s = Finished (Returned r s') \<Longrightarrow> P s'"
  shows "P s \<Longrightarrow> hireLocked n e s = Some (Returned r s') \<Longrightarrow> P s'"
proof (induction n arbitrary: s)
  case 0
  then show ?case by simp
next
  case (Suc n)
  show ?case
  proof (cases "hire_pass e s")
    case (Again s1)
    with Suc.prems have "P s1" "hireLocked n e s1 = Some (Returned r s')"
      by (auto dest: again)
    then show ?thesis by (rule Suc.IH)
  next
    case (Finished x)
    with Suc.prems show ?thesis by (auto dest: fin)
  qed
qed

lemma entries_frame [simp]:
  "entries (stats_update f1 s) = entries s"
  "entries (statsReader_update f2 s) = entries s"
  "entries (mostFree_update f3 s) = entries s"
  "entries (heap_update f4 s) = entries s"
  "entries (nextAddr_update f5 s) = entries s"
  "entries (ticks_update f6 s) = entries s"
  "entries (closedLog_update f7 s) = entries s"
  "entries (fnLog_update f8 s) = entries s"
  "entries (closeCh_update f9 s) = entries s"
  "entries (tick s) = entries s"
  "entries (map_info a g s) = entries s"
  "entries (writeStats s) = entries s"
  "entries (updateFreeLocked s) = entries s"
  "entries (delete_infos k s) = AList.delete k (entries s)"
  by (simp_all add: entries_def tick_def map_info_def writeStats_def updateFreeLocked_def
      delete_infos_def split: option.splits)

lemma len_infos_delete: "len_infos (delete_infos k s) \<le> len_infos s"
  by (simp add: len_infos_def length_delete_le)

lemma quota_ok_frame [simp]:
  "quota_ok (stats_update f1 s) = quota_ok s"
  "quota_ok (statsReader_update f2 s) = quota_ok s"
  "quota_ok (mostFree_update f3 s) = quota_ok s"
  "quota_ok (heap_update f4 s) = quota_ok s"
  "quota_ok (nextAddr_update f5 s) = quota_ok s"
  "quota_ok (ticks_update f6 s) = quota_ok s"
  "quota_ok (closedLog_update f7 s) = quota_ok s"
  "quota_ok (fnLog_update f8 s) = quota_ok s"
  "quota_ok (closeCh_update f9 s) = quota_ok s"
  "quota_ok (tick s) = quota_ok s"
  "quota_ok (map_info a g s) = quota_ok s"
  "quota_ok (writeStats s) = quota_ok s"
  "quota_ok (updateFreeLocked s) = quota_ok s"
  by (simp_all add: quota_ok_def len_infos_def tick_def map_info_def writeStats_def
      updateFreeLocked_def)

lemma quota_ok_delete: "quota_ok s \<Longrightarrow> quota_ok (delete_infos k s)"
  using len_infos_delete [of k s] by (simp add: quota_ok_def delete_infos_def)

lemma length_update_le: "int (length (AList.update k v al)) \<le> int (length al) + 1"
  by (induction al) auto

lemma quota_ok_probe_Again: "probe e a s = Again s' \<Longrightarrow> quota_ok s \<Longrightarrow> quota_ok s'"
  by (auto simp: probe_def Let_def quota_ok_delete split: option.splits if_splits)

lemma quota_ok_probe_Finished:
  "probe e a s = Finished (Returned r s') \<Longrightarrow> quota_ok s \<Longrightarrow> quota_ok s'"
  by (auto simp: probe_def Let_def quota_ok_delete split: option.splits if_splits)

lemma quota_ok_addFn:
  assumes "addFn e s = (r, s')" and "\<not> maxQuota s \<le> len_infos s"
  shows "quota_ok s'"
proof (cases "newWorkerFunc e (ticks s)")
  case (FOk wk)
  show ?thesis
  proof (cases "infos s")
    case None
    with FOk assms show ?thesis
      by (auto simp: addFn_def Let_def quota_ok_def len_infos_def entries_def tick_def)
  next
    case (Some xs)
    have "int (length (AList.update wk (nextAddr s) xs)) \<le> int (length xs) + 1"
      by (rule length_update_le)
    with Some FOk assms show ?thesis
      by (auto simp: addFn_def Let_def quota_ok_def len_infos_def entries_def tick_def)
  qed
next
  case (FErr m)
  with assms show ?thesis
    by (auto simp: addFn_def quota_ok_def len_infos_def tick_def)
next
  case (FPanic p)
  with assms show ?thesis
    by (auto simp: addFn_def quota_ok_def len_infos_def tick_def)
qed

lemma quota_ok_hire_pass_Again:
  "quota_ok s \<Longrightarrow> hire_pass e s = Again s' \<Longrightarrow> quota_ok s'"
  apply (simp add: hire_pass_def Let_def split: if_splits option.splits prod.splits)
  apply (auto dest!: quota_ok_probe_Again quota_ok_addFn simp: quota_ok_delete)
  done

lemma quota_ok_hire_pass_Finished:
  "quota_ok s \<Longrightarrow> hire_pass e s = Finished (Returned r s') \<Longrightarrow> quota_ok s'"
  apply (simp add: hire_pass_def Let_def split: if_splits option.splits prod.splits)
  apply (auto dest!: quota_ok_probe_Finished quota_ok_addFn simp: quota_ok_delete)
  done


lemma hireLocked_quota_ok:
  "quota_ok s \<Longrightarrow> hireLocked n e s = Some (Returned r s') \<Longrightarrow> quota_ok s'"
  by (rule hireLocked_preserves [where P = quota_ok and e = e])
     (auto dest: quota_ok_hire_pass_Again quota_ok_hire_pass_Finished)

lemma quota_ok_fireLocked:
  "fireLocked e a s = Returned u s' \<Longrightarrow> quota_ok s \<Longrightarrow> quota_ok s'"
  by (auto simp: fireLocked_def free_def Let_def quota_ok_delete
      split: option.splits if_splits result.splits)

lemma quota_ok_refreshLoop:
  "refreshLoop e xs (s, mx, mn, up) = Some (s', mx', mn', up') \<Longrightarrow> quota_ok s \<Longrightarrow> quota_ok s'"
proof (induction xs arbitrary: s mx mn up)
  case Nil
  then show ?case by simp
next
  case (Cons x xs)
  obtain k a where x: "x = (k, a)" by (cases x)
  from Cons.prems show ?case
    unfolding x
    by (auto simp: Let_def quota_ok_delete split: if_splits option.splits
        dest!: Cons.IH)
qed

lemma quota_ok_refreshLocked:
  "refreshLocked e s = Returned u s' \<Longrightarrow> quota_ok s \<Longrightarrow> quota_ok s'"
  by (auto simp: refreshLocked_def Let_def split: option.splits prod.splits if_splits
      dest!: quota_ok_refreshLoop)

lemma closeAll_frame:
  "closeAll xs s = Some s' \<Longrightarrow> maxQuota s' = maxQuota s \<and> infos s' = infos s \<and> stats s' = stats s
     \<and> statsReader s' = statsReader s"
  by (induction xs arbitrary: s) (auto split: option.splits)

lemma quota_ok_Close_locked:
  "Close_locked e s = Returned u s' \<Longrightarrow> quota_ok s \<Longrightarrow> quota_ok s'"
proof -
  assume a: "Close_locked e s = Returned u s'" and q: "quota_ok s"
  then obtain s1 where c: "closeAll (entries s) s = Some s1"
    by (auto simp: Close_locked_def split: option.splits)
  have "0 \<le> maxQuota s" using q by (simp add: quota_ok_def len_infos_def)
  with closeAll_frame [OF c] have "quota_ok (s1\<lparr>infos := None\<rparr>)"
    by (simp add: quota_ok_def len_infos_def entries_def)
  with a c show ?thesis
    by (auto simp: Close_locked_def Let_def dest!: quota_ok_refreshLocked)
qed

lemma quota_ok_NewWorkshop: "quota_ok (NewWorkshop q d)"
  by (simp add: quota_ok_def NewWorkshop_def len_infos_def entries_def defaultWorkerMaxQuota_def)

lemma Workshop_Hire_Returned:
  "Workshop_Hire n e s = Some (Returned r s') \<Longrightarrow>
   \<exists>x s1. hireLocked n e s = Some (Returned x s1) \<and> s' = writeStats s1"
  by (simp add: Workshop_Hire_def split: option.splits result.splits sum.splits)

lemma Callback_hire_Returned:
  "Callback_hire n e s = Some (Returned r s') \<Longrightarrow>
   (closeCh s \<and> s' = s) \<or> (\<exists>x s1. hireLocked n e s = Some (Returned x s1) \<and> s' = writeStats s1)"
  by (simp add: Callback_hire_def split: if_splits option.splits result.splits sum.splits)

lemma Workshop_Fire_Returned:
  "Workshop_Fire e wk s = Returned u s' \<Longrightarrow>
   (lookup_infos s wk = None \<and> (s' = s \<or> (\<exists>i. s' = s\<lparr>closedLog := closedLog s @ [i]\<rparr>))) \<or>
   (\<exists>a s1. lookup_infos s wk = Some a \<and> fireLocked e a s = Returned () s1 \<and> s' = writeStats s1)"
  by (auto simp: Workshop_Fire_def split: option.splits result.splits)

lemma Callback_deferred_Returned:
  "Callback_deferred e a wk s = Returned u s' \<Longrightarrow>
   (\<exists>i. s' = s\<lparr>closedLog := closedLog s @ [i]\<rparr>) \<or>
   (\<exists>s1. fireLocked e a s = Returned () s1 \<and> s' = writeStats s1)"
  by (auto simp: Callback_deferred_def split: option.splits result.splits)

lemma reachable_invariant:
  assumes r: "reachable q d s"
    and init: "P (NewWorkshop q d)"
    and hire: "\<And>n e s x s1. P s \<Longrightarrow> hireLocked n e s = Some (Returned x s1) \<Longrightarrow> P s1"
    and fire: "\<And>e a s s1. P s \<Longrightarrow> fireLocked e a s = Returned () s1 \<Longrightarrow> P s1"
    and refresh: "\<And>e s u s1. P s \<Longrightarrow> refreshLocked e s = Returned u s1 \<Longrightarrow> P s1"
    and closing: "\<And>e s u s1. P s \<Longrightarrow> Close_locked e s = Returned u s1 \<Longrightarrow> P s1"
    and wstats: "\<And>s. P s \<Longrightarrow> P (writeStats s)"
    and closed: "\<And>s i. P s \<Longrightarrow> P (s\<lparr>closedLog := closedLog s @ [i]\<rparr>)"
    and called: "\<And>s wk. P s \<Longrightarrow> P (s\<lparr>fnLog := fnLog s @ [wk]\<rparr>)"
    and chan: "\<And>s. P s \<Longrightarrow> P (s\<lparr>closeCh := True\<rparr>)"
  shows "P s"
  using r
proof (induction rule: reachable.induct)
  case r_new
  show ?case by (rule init)
next
  case (r_hire s n e r s')
  from Workshop_Hire_Returned [OF r_hire.hyps(2)] r_hire.IH show ?case
    by (blast intro: hire wstats)
next
  case (r_fire s e wk u s')
  from Workshop_Fire_Returned [OF r_fire.hyps(2)] r_fire.IH show ?case
    by (blast intro: fire wstats closed)
next
  case (r_cb_hire s n e r s')
  from Callback_hire_Returned [OF r_cb_hire.hyps(2)] r_cb_hire.IH show ?case
    by (blast intro: hire wstats)
next
  case (r_cb_fn s wk)
  then show ?case by (blast intro: called)
next
  case (r_cb_deferred s a e u s')
  from Callback_deferred_Returned [OF r_cb_deferred.hyps(3)] r_cb_deferred.IH show ?case
    by (blast intro: fire wstats closed)
next
  case (r_close_begin s)
  then show ?case by (auto simp: Close_begin_def intro: chan)
next
  case (r_close_locked s e u s')
  then show ?case by (blast intro: closing)
next
  case (r_gc s e u s')
  then show ?case unfolding gc_round_def by (blast intro: refresh)
qed

lemma reachable_quota_ok: "reachable q d s \<Longrightarrow> quota_ok s"
  by (rule reachable_invariant [where P = quota_ok])
     (auto intro: quota_ok_NewWorkshop hireLocked_quota_ok quota_ok_fireLocked
        quota_ok_refreshLocked quota_ok_Close_locked)

lemma doing_ok_frame [simp]:
  "doing_ok (Worker_update g1 st) = doing_ok st"
  "doing_ok (Idle_update g2 st) = doing_ok st"
  "doing_ok (Created_update g3 st) = doing_ok st"
  "doing_ok (MostUsed_update g4 st) = doing_ok st"
  "doing_ok (LeastUsed_update g5 st) = doing_ok st"
  "doing_ok (hireOne st)"
  "doing_ok (fireOne st)"
  "doing_ok zeroStats"
  by (simp_all add: doing_ok_def hireOne_def fireOne_def zeroStats_def Let_def)

lemma stats_ok_frame [simp]:
  "stats_ok (infos_update f1 s) = stats_ok s"
  "stats_ok (maxQuota_update f2 s) = stats_ok s"
  "stats_ok (mostFree_update f3 s) = stats_ok s"
  "stats_ok (heap_update f4 s) = stats_ok s"
  "stats_ok (nextAddr_update f5 s) = stats_ok s"
  "stats_ok (ticks_update f6 s) = stats_ok s"
  "stats_ok (closedLog_update f7 s) = stats_ok s"
  "stats_ok (fnLog_update f8 s) = stats_ok s"
  "stats_ok (closeCh_update f9 s) = stats_ok s"
  "stats_ok (tick s) = stats_ok s"
  "stats_ok (map_info a g s) = stats_ok s"
  "stats_ok (updateFreeLocked s) = stats_ok s"
  "stats_ok (delete_infos k s) = stats_ok s"
  by (simp_all add: stats_ok_def tick_def map_info_def updateFreeLocked_def delete_infos_def)

lemma stats_ok_stats [simp]:
  "stats_ok (s\<lparr>stats := st\<rparr>) = (doing_ok st \<and> doing_ok (statsReader s))"
  by (simp add: stats_ok_def)

lemma stats_ok_writeStats: "stats_ok s \<Longrightarrow> stats_ok (writeStats s)"
  by (simp add: stats_ok_def writeStats_def)

lemma stats_ok_D: "stats_ok s \<Longrightarrow> doing_ok (stats s)" "stats_ok s \<Longrightarrow> doing_ok (statsReader s)"
  by (simp_all add: stats_ok_def)

lemma stats_ok_probe_Again: "probe e a s = Again s' \<Longrightarrow> stats_ok s \<Longrightarrow> stats_ok s'"
  by (auto simp: probe_def Let_def stats_ok_D split: option.splits if_splits)

lemma stats_ok_probe_Finished:
  "probe e a s = Finished (Returned r s') \<Longrightarrow> stats_ok s \<Longrightarrow> stats_ok s'"
  by (auto simp: probe_def Let_def stats_ok_D split: option.splits if_splits)

lemma stats_ok_addFn: "addFn e s = (r, s') \<Longrightarrow> stats_ok s \<Longrightarrow> stats_ok s'"
  by (auto simp: addFn_def Let_def stats_ok_D split: fres.splits option.splits)

lemma stats_ok_hire_pass_Again:
  "stats_ok s \<Longrightarrow> hire_pass e s = Again s' \<Longrightarrow> stats_ok s'"
  apply (simp add: hire_pass_def Let_def split: if_splits option.splits prod.splits)
  apply (auto dest!: stats_ok_probe_Again stats_ok_addFn simp: stats_ok_D)
  done

lemma stats_ok_hire_pass_Finished:
  "stats_ok s \<Longrightarrow> hire_pass e s = Finished (Returned r s') \<Longrightarrow> stats_ok s'"
  apply (simp add: hire_pass_def Let_def split: if_splits option.splits prod.splits)
  apply (auto dest!: stats_ok_probe_Finished stats_ok_addFn simp: stats_ok_D)
  done

lemma hireLocked_stats_ok:
  "stats_ok s \<Longrightarrow> hireLocked n e s = Some (Returned r s') \<Longrightarrow> stats_ok s'"
  by (rule hireLocked_preserves [where P = stats_ok and e = e])
     (auto dest: stats_ok_hire_pass_Again stats_ok_hire_pass_Finished)

lemma stats_ok_fireLocked:
  "fireLocked e a s = Returned u s' \<Longrightarrow> stats_ok s \<Longrightarrow> stats_ok s'"
  by (auto simp: fireLocked_def free_def Let_def stats_ok_D
      split: option.splits if_splits result.splits)

lemma stats_ok_refreshLoop:
  "refreshLoop e xs (s, mx, mn, up) = Some (s', mx', mn', up') \<Longrightarrow> stats_ok s \<Longrightarrow> stats_ok s'"
proof (induction xs arbitrary: s mx mn up)
  case Nil
  then show ?case by simp
next
  case (Cons x xs)
  obtain k a where x: "x = (k, a)" by (cases x)
  from Cons.prems show ?case
    unfolding x
    by (auto simp: Let_def stats_ok_D split: if_splits option.splits
        dest!: Cons.IH)
qed

lemma stats_ok_refreshLocked:
  "refreshLocked e s = Returned u s' \<Longrightarrow> stats_ok s \<Longrightarrow> stats_ok s'"
  by (auto simp: refreshLocked_def Let_def stats_ok_D stats_ok_writeStats
      split: option.splits prod.splits if_splits
      dest!: stats_ok_refreshLoop)

lemma stats_ok_Close_locked:
  "Close_locked e s = Returned u s' \<Longrightarrow> stats_ok s \<Longrightarrow> stats_ok s'"
proof -
  assume a: "Close_locked e s = Returned u s'" and q: "stats_ok s"
  then obtain s1 where c: "closeAll (entries s) s = Some s1"
    by (auto simp: Close_locked_def split: option.splits)
  with closeAll_frame [OF c] q have "stats_ok s1"
    by (simp add: stats_ok_def)
  with a c show ?thesis
    by (auto simp: Close_locked_def Let_def stats_ok_D dest!: stats_ok_refreshLocked)
qed

lemma stats_ok_NewWorkshop: "stats_ok (NewWorkshop q d)"
  by (simp add: NewWorkshop_def stats_ok_def)

lemma reachable_stats_ok: "reachable q d s \<Longrightarrow> stats_ok s"
  by (rule reachable_invariant [where P = stats_ok])
     (auto intro: hireLocked_stats_ok stats_ok_fireLocked stats_ok_writeStats
        stats_ok_refreshLocked stats_ok_Close_locked stats_ok_NewWorkshop)

lemma nil_free_frame [simp]:
  "nil_free (stats_update f1 s) = nil_free s"
  "nil_free (statsReader_update f2 s) = nil_free s"
  "nil_free (mostFree_update f3 s) = nil_free s"
  "nil_free (heap_update f4 s) = nil_free s"
  "nil_free (nextAddr_update f5 s) = nil_free s"
  "nil_free (ticks_update f6 s) = nil_free s"
  "nil_free (closedLog_update f7 s) = nil_free s"
  "nil_free (fnLog_update f8 s) = nil_free s"
  "nil_free (closeCh_update f9 s) = nil_free s"
  "nil_free (tick s) = nil_free s"
  "nil_free (map_info a g s) = nil_free s"
  "nil_free (writeStats s) = nil_free s"
  "nil_free (updateFreeLocked s) = nil_free s"
  by (simp_all add: nil_free_def lookup_infos_def)

lemma nil_free_delete: "nil_free s \<Longrightarrow> nil_free (delete_infos k s)"
  by (simp add: nil_free_def lookup_infos_def delete_conv')

lemma nil_free_probe_Again:
  "probe e a s = Again s' \<Longrightarrow> info_worker s a \<noteq> None \<longrightarrow> nil_free s \<Longrightarrow> nil_free s'"
  by (auto simp: probe_def Let_def nil_free_delete split: option.splits if_splits)

lemma nil_free_probe_Finished:
  "probe e a s = Finished (Returned r s') \<Longrightarrow> info_worker s a \<noteq> None \<longrightarrow> nil_free s
   \<Longrightarrow> nil_free s'"
  by (auto simp: probe_def Let_def split: option.splits if_splits)

lemma nil_free_addFn:
  "addFn e s = ((ao, eo), s') \<Longrightarrow> nil_free s \<Longrightarrow>
   (eo \<noteq> None \<longrightarrow> nil_free s') \<and>
   (\<forall>a. ao = Some a \<and> eo = None \<and> info_worker s' a \<noteq> None \<longrightarrow> nil_free s')"
  by (auto simp: addFn_def Let_def nil_free_def lookup_infos_def entries_def tick_def
      info_worker_def update_conv' split: fres.splits option.splits)

lemma nil_free_hire_pass_Again:
  "nil_free s \<Longrightarrow> hire_pass e s = Again s' \<Longrightarrow> nil_free s'"
  apply (simp add: hire_pass_def Let_def split: if_splits option.splits prod.splits)
  apply (auto dest!: nil_free_probe_Again nil_free_addFn simp: nil_free_delete info_worker_def)
  done

lemma nil_free_hire_pass_Finished:
  "nil_free s \<Longrightarrow> hire_pass e s = Finished (Returned r s') \<Longrightarrow> nil_free s'"
  apply (simp add: hire_pass_def Let_def split: if_splits option.splits prod.splits)
  apply (auto dest!: nil_free_probe_Finished nil_free_addFn simp: nil_free_delete info_worker_def)
  done

lemma hireLocked_nil_free:
  "nil_free s \<Longrightarrow> hireLocked n e s = Some (Returned r s') \<Longrightarrow> nil_free s'"
  by (rule hireLocked_preserves [where P = nil_free and e = e])
     (auto dest: nil_free_hire_pass_Again nil_free_hire_pass_Finished)

lemma nil_free_fireLocked:
  "fireLocked e a s = Returned u s' \<Longrightarrow> nil_free s \<Longrightarrow> nil_free s'"
  by (auto simp: fireLocked_def free_def Let_def nil_free_delete
      split: option.splits if_splits result.splits)

lemma nil_free_refreshLoop:
  "refreshLoop e xs (s, mx, mn, up) = Some (s', mx', mn', up') \<Longrightarrow> nil_free s \<Longrightarrow> nil_free s'"
proof (induction xs arbitrary: s mx mn up)
  case Nil
  then show ?case by simp
next
  case (Cons x xs)
  obtain k a where x: "x = (k, a)" by (cases x)
  from Cons.prems show ?case
    unfolding x
    by (auto simp: Let_def nil_free_delete split: if_splits option.splits
        dest!: Cons.IH)
qed

lemma nil_free_refreshLocked:
  "refreshLocked e s = Returned u s' \<Longrightarrow> nil_free s \<Longrightarrow> nil_free s'"
  by (auto simp: refreshLocked_def Let_def split: option.splits prod.splits if_splits
      dest!: nil_free_refreshLoop)

lemma nil_free_Close_locked:
  "Close_locked e s = Returned u s' \<Longrightarrow> nil_free s'"
proof -
  assume a: "Close_locked e s = Returned u s'"
  then obtain s1 where c: "closeAll (entries s) s = Some s1"
    by (auto simp: Close_locked_def split: option.splits)
  have "nil_free (s1\<lparr>infos := None\<rparr>)"
    by (simp add: nil_free_def lookup_infos_def entries_def)
  with a c show ?thesis
    by (auto simp: Close_locked_def Let_def dest!: nil_free_refreshLocked)
qed

lemma nil_free_NewWorkshop: "nil_free (NewWorkshop q d)"
  by (simp add: NewWorkshop_def nil_free_def lookup_infos_def entries_def)

lemma reachable_nil_free: "reachable q d s \<Longrightarrow> nil_free s"
  by (rule reachable_invariant [where P = nil_free])
     (auto intro: hireLocked_nil_free nil_free_fireLocked
        nil_free_refreshLocked nil_free_Close_locked nil_free_NewWorkshop)

lemma maxQuota_frame [simp]:
  "maxQuota (tick s) = maxQuota s"
  "maxQuota (map_info a g s) = maxQuota s"
  "maxQuota (writeStats s) = maxQuota s"
  "maxQuota (updateFreeLocked s) = maxQuota s"
  "maxQuota (delete_infos k s) = maxQuota s"
  by (simp_all add: tick_def map_info_def writeStats_def updateFreeLocked_def delete_infos_def)

lemma maxQuota_probe_Again: "probe e a s = Again s' \<Longrightarrow> maxQuota s' = maxQuota s"
  by (auto simp: probe_def Let_def split: option.splits if_splits)

lemma maxQuota_probe_Finished:
  "probe e a s = Finished (Returned r s') \<Longrightarrow> maxQuota s' = maxQuota s"
  by (auto simp: probe_def Let_def split: option.splits if_splits)

lemma maxQuota_addFn: "addFn e s = (r, s') \<Longrightarrow> maxQuota s' = maxQuota s"
  by (auto simp: addFn_def Let_def split: fres.splits option.splits)

lemma maxQuota_hire_pass_Again: "hire_pass e s = Again s' \<Longrightarrow> maxQuota s' = maxQuota s"
  apply (simp add: hire_pass_def Let_def split: if_splits option.splits prod.splits)
  apply (auto dest!: maxQuota_probe_Again maxQuota_addFn)
  done

lemma maxQuota_hire_pass_Finished:
  "hire_pass e s = Finished (Returned r s') \<Longrightarrow> maxQuota s' = maxQuota s"
  apply (simp add: hire_pass_def Let_def split: if_splits option.splits prod.splits)
  apply (auto dest!: maxQuota_probe_Finished maxQuota_addFn)
  done

lemma hireLocked_maxQuota:
  "maxQuota s = c \<Longrightarrow> hireLocked n e s = Some (Returned r s') \<Longrightarrow> maxQuota s' = c"
  by (rule hireLocked_preserves [where P = "\<lambda>s. maxQuota s = c" and e = e])
     (auto dest: maxQuota_hire_pass_Again maxQuota_hire_pass_Finished)

lemma maxQuota_fireLocked: "fireLocked e a s = Returned u s' \<Longrightarrow> maxQuota s' = maxQuota s"
  by (auto simp: fireLocked_def free_def Let_def split: option.splits if_splits result.splits)

lemma maxQuota_refreshLoop:
  "refreshLoop e xs (s, mx, mn, up) = Some (s', mx', mn', up') \<Longrightarrow> maxQuota s' = maxQuota s"
proof (induction xs arbitrary: s mx mn up)
  case Nil
  then show ?case by simp
next
  case (Cons x xs)
  obtain k a where x: "x = (k, a)" by (cases x)
  from Cons.prems show ?case
    unfolding x
    by (auto simp: Let_def split: if_splits option.splits dest!: Cons.IH)
qed

lemma maxQuota_refreshLocked: "refreshLocked e s = Returned u s' \<Longrightarrow> maxQuota s' = maxQuota s"
  by (auto simp: refreshLocked_def Let_def split: option.splits prod.splits if_splits
      dest!: maxQuota_refreshLoop)

lemma maxQuota_Close_locked: "Close_locked e s = Returned u s' \<Longrightarrow> maxQuota s' = maxQuota s"
  by (auto simp: Close_locked_def Let_def split: option.splits
      dest!: maxQuota_refreshLocked closeAll_frame)

lemma reachable_maxQuota: "reachable q d s \<Longrightarrow> maxQuota s = maxQuota (NewWorkshop q d)"
  by (rule reachable_invariant [where P = "\<lambda>s. maxQuota s = maxQuota (NewWorkshop q d)"])
     (auto dest: hireLocked_maxQuota maxQuota_fireLocked maxQuota_refreshLocked
        maxQuota_Close_locked)

lemmas ws_defs = entries_def len_infos_def lookup_infos_def delete_infos_def tick_def writeStats_def
  hireOne_def fireOne_def zeroStats_def zeroInfo_def NewWorkshop_def map_info_def info_worker_def
  info_jobNum_def updateFreeLocked_def addFn_def probe_def hire_pass_def free_def fireLocked_def
  Workshop_Fire_def Workshop_Hire_def refreshLocked_def Close_locked_def Close_begin_def
  Workshop_Close_def MaxInt32_def Stats_def Let_def

section \<open>Fire on a worker that is not registered\<close>

text \<open>
  Claim C6. When the worker given to \<open>Fire\<close> is not a key of \<open>infos\<close>, \<open>Fire\<close> returns
  normally, having called \<open>Close()\<close> on the worker (unless it is nil, which has nothing to
  close); the counters, the published snapshot and the registry are as before. The pool
  it leaves is again one where the worker is unknown, so releasing the same worker a
  second time returns as well and still leaves the snapshot and the registry unchanged.
\<close>

theorem Fire_unknown_worker:
  assumes "lookup_infos s wk = None"
  shows "\<exists>s'. Workshop_Fire e wk s = Returned () s' \<and> Stats s' = Stats s \<and> stats s' = stats s \<and>
              infos s' = infos s \<and>
              closedLog s' = closedLog s @ (case wk of None \<Rightarrow> [] | Some i \<Rightarrow> [i]) \<and>
              (\<exists>s''. Workshop_Fire e' wk s' = Returned () s'' \<and> Stats s'' = Stats s \<and>
                     infos s'' = infos s)"
  using assms by (cases wk) (simp_all add: Workshop_Fire_def lookup_infos_def entries_def Stats_def)

theorem Fire_unknown_worker_witness:
  "lookup_infos (NewWorkshop 1 100) (Some 7) = None \<and>
   (\<exists>s'. Workshop_Fire (world True fresh_worker 1000) (Some 7) (NewWorkshop 1 100) = Returned () s' \<and>
         Stats s' = Stats (NewWorkshop 1 100) \<and> closedLog s' = [7])"
proof -
  have h: "lookup_infos (NewWorkshop 1 100) (Some 7) = None"
    by (simp add: lookup_infos_def entries_def NewWorkshop_def)
  from Fire_unknown_worker [OF h, of "world True fresh_worker 1000" "world True fresh_worker 1000"]
  show ?thesis using h by (auto simp: NewWorkshop_def)
qed

text \<open>
  The theorem is about a worker that is unknown to the registry at the time of the call.
  Releasing twice a worker that is still registered is another matter: the second call
  finds the entry, goes through \<open>fireLocked\<close>, and \<open>free\<close> takes the WaitGroup of the
  cell below zero.
\<close>

lemma Fire_twice_registered:
  "(case Workshop_Hire (Suc 0) (world True fresh_worker 1000) (NewWorkshop 1 100) of
      Some (Returned _ s1) \<Rightarrow>
        (case Workshop_Fire (world True fresh_worker 1000) (Some 0) s1 of
           Returned _ s2 \<Rightarrow>
             lookup_infos s2 (Some 0) = Some 0 \<and>
             Workshop_Fire (world True fresh_worker 1000) (Some 0) s2
               = Panic ''sync: negative WaitGroup counter''
         | _ \<Rightarrow> False)
    | _ \<Rightarrow> False)"
  by (simp add: ws_defs world_def fresh_worker_def)

section \<open>Hire after Close\<close>

text \<open>
  Claim C2. \<open>Callback\<close> opens with a \<open>select\<close> on \<open>closeCh\<close> and returns
  \<open>ErrWorkshopClosed\<close>; \<open>Hire\<close> has no such test. On a new Workshop of quota 1, once
  \<open>Close\<close> has returned, \<open>Hire\<close> calls the factory and returns the error recovered from
  the assignment into the nil map, not \<open>ErrWorkshopClosed\<close>; and once \<open>Close\<close> has only
  closed the channel, \<open>Hire\<close> succeeds and hands out a worker.
\<close>

theorem Hire_after_Close_evaluated:
  "(case Workshop_Close (world True fresh_worker 1000) (NewWorkshop 1 100) of
      Returned _ s \<Rightarrow>
        closeCh s \<and>
        (case Workshop_Hire (Suc 0) (world True fresh_worker 1000) s of
           Some (Returned r _) \<Rightarrow> r = Inl (FactoryError ''assignment to entry in nil map'')
         | _ \<Rightarrow> False)
    | _ \<Rightarrow> False) \<and>
   (case Workshop_Hire (Suc 0) (world True fresh_worker 1000) (snd (Close_begin (NewWorkshop 1 100))) of
      Some (Returned r s) \<Rightarrow> closeCh s \<and> r = Inr (Some 0)
    | _ \<Rightarrow> False)"
  by (simp add: ws_defs world_def fresh_worker_def)

text \<open>The part of the claim on \<open>Callback\<close>: the pool is untouched and \<open>fn\<close> is not called.\<close>

lemma Callback_after_Close:
  "closeCh s \<Longrightarrow> Workshop_Callback n e e' fn s = Some (Returned (Some ErrWorkshopClosed) s)"
  by (simp add: Workshop_Callback_def Callback_hire_def)

section \<open>Fire on a registered worker that has become unhealthy\<close>

text \<open>
  Claim C4. \<open>fireLocked\<close> counts the release (\<open>fireOne\<close>) and then probes the worker; when
  the probe fails it deletes the entry and returns before \<open>info.free()\<close>. On a Workshop
  of quota 1 whose one worker is hired once, \<open>Fire\<close> of that worker, now unhealthy, adds
  one to the \<open>Fire\<close> counter and leaves \<open>jobNum\<close> at 1 and the cell's WaitGroup at 1.
  When the worker is healthy, \<open>jobNum\<close> and the cell's own WaitGroup go down by one;
  the WaitGroup of the Workshop, of which the cell holds a copy, stays at 0 in both cases.
\<close>

theorem Fire_unhealthy_skips_free:
  "(case Workshop_Hire (Suc 0) (world True fresh_worker 1000) (NewWorkshop 1 100) of
      Some (Returned r s1) \<Rightarrow>
        r = Inr (Some 0) \<and> lookup_infos s1 (Some 0) = Some 0 \<and> info_jobNum s1 0 = 1 \<and>
        wg (heap s1 0) = 1 \<and> w_wg s1 = 0 \<and>
        (case Workshop_Fire (world False fresh_worker 1000) (Some 0) s1 of
           Returned _ s2 \<Rightarrow>
             info_jobNum s2 0 = 1 \<and> wg (heap s2 0) = 1 \<and> w_wg s2 = 0 \<and>
             Fire (Stats s2) = Fire (Stats s1) + 1
         | _ \<Rightarrow> False) \<and>
        (case Workshop_Fire (world True fresh_worker 1000) (Some 0) s1 of
           Returned _ s2 \<Rightarrow>
             info_jobNum s2 0 = 0 \<and> wg (heap s2 0) = 0 \<and> w_wg s2 = 0 \<and>
             Fire (Stats s2) = Fire (Stats s1) + 1
         | _ \<Rightarrow> False)
    | _ \<Rightarrow> False)"
  by (simp add: ws_defs world_def fresh_worker_def)

text \<open>
  Claim C5. In the same run the unhealthy worker leaves the registry and the \<open>Worker\<close>
  counter goes down by one while \<open>Idle\<close> keeps its value, but \<open>Close()\<close> is called on
  no worker: the log of closed workers is still empty.
\<close>

theorem Fire_unhealthy_never_closes:
  "(case Workshop_Hire (Suc 0) (world True fresh_worker 1000) (NewWorkshop 1 100) of
      Some (Returned r s1) \<Rightarrow>
        r = Inr (Some 0) \<and> lookup_infos s1 (Some 0) = Some 0 \<and>
        (case Workshop_Fire (world False fresh_worker 1000) (Some 0) s1 of
           Returned _ s2 \<Rightarrow>
             closedLog s2 = [] \<and> lookup_infos s2 (Some 0) = None \<and>
             Worker (Stats s2) = Worker (Stats s1) - 1 \<and> Idle (Stats s2) = Idle (Stats s1)
         | _ \<Rightarrow> False)
    | _ \<Rightarrow> False)"
  by (simp add: ws_defs world_def fresh_worker_def)

text \<open>
  Claim C9. In the same run \<open>mostFree\<close> names the cell of the hired worker before the
  release, and still names it afterwards, when the registry is empty: the hint is not
  nil and refers to no entry of the registry.
\<close>

theorem Fire_unhealthy_leaves_mostFree:
  "(case Workshop_Hire (Suc 0) (world True fresh_worker 1000) (NewWorkshop 1 100) of
      Some (Returned r s1) \<Rightarrow>
        r = Inr (Some 0) \<and> mostFree s1 = Some 0 \<and> lookup_infos s1 (info_worker s1 0) = Some 0 \<and>
        (case Workshop_Fire (world False fresh_worker 1000) (Some 0) s1 of
           Returned _ s2 \<Rightarrow>
             mostFree s2 = Some 0 \<and> entries s2 = [] \<and> lookup_infos s2 (info_worker s2 0) = None
         | _ \<Rightarrow> False)
    | _ \<Rightarrow> False)"
  by (simp add: ws_defs world_def fresh_worker_def)

section \<open>The claims on all runs\<close>

text \<open>A pool to try the theorems on: a new Workshop of quota 1 after one \<open>Hire\<close>.\<close>

lemma hired_once:
  "\<exists>s. Workshop_Hire (Suc 0) (world True fresh_worker 1000) (NewWorkshop 1 100)
          = Some (Returned (Inr (Some 0)) s) \<and>
        entries s = [(Some 0, 0)] \<and> maxQuota s = 1 \<and>
        Hire (Stats s) = 1 \<and> Fire (Stats s) = 0 \<and> Doing (Stats s) = 1"
  by (simp add: ws_defs world_def fresh_worker_def)

text \<open>
  Claim C1. In every pool reached from \<open>NewWorkshop(q, d, _)\<close> by calls of \<open>Hire\<close>, \<open>Fire\<close>,
  \<open>Callback\<close>, \<open>Close\<close> and rounds of the collector, the registry \<open>infos\<close> has at most
  \<open>maxQuota\<close> entries, and \<open>maxQuota\<close> is still the quota the Workshop was built with
  (\<open>q\<close>, or the default 64 when \<open>q \<le> 0\<close>).
\<close>

theorem registry_within_quota:
  "reachable q d s \<Longrightarrow>
   int (length (entries s)) \<le> maxQuota s \<and>
   maxQuota s = (if q \<le> 0 then defaultWorkerMaxQuota else q)"
  using reachable_quota_ok [of q d s] reachable_maxQuota [of q d s]
  by (simp add: quota_ok_def len_infos_def NewWorkshop_def)

theorem registry_within_quota_witness:
  "\<exists>s. reachable 1 100 s \<and> length (entries s) = 1 \<and>
        int (length (entries s)) \<le> maxQuota s \<and> maxQuota s = 1"
proof -
  from hired_once obtain s where
    h: "Workshop_Hire (Suc 0) (world True fresh_worker 1000) (NewWorkshop 1 100)
          = Some (Returned (Inr (Some 0)) s)"
    and e: "entries s = [(Some 0, 0)]" by blast
  have r: "reachable 1 100 s" by (rule r_hire [OF r_new h])
  from registry_within_quota [OF r] e r show ?thesis by auto
qed

text \<open>
  Claim C8. In every reachable pool the snapshot returned by \<open>Stats()\<close> has
  \<open>Doing = Hire - Fire\<close>, the difference being taken as \<open>hireOne\<close> and \<open>fireOne\<close> take it:
  in \<open>uint64\<close>, converted to \<open>int32\<close>.
\<close>

theorem Doing_is_Hire_minus_Fire:
  "reachable q d s \<Longrightarrow> Doing (Stats s) = ucast (Hire (Stats s) - Fire (Stats s))"
  by (drule reachable_stats_ok) (simp add: stats_ok_def doing_ok_def Stats_def)

theorem Doing_is_Hire_minus_Fire_witness:
  "\<exists>s. reachable 1 100 s \<and> Hire (Stats s) = 1 \<and> Fire (Stats s) = 0 \<and> Doing (Stats s) = 1 \<and>
        Doing (Stats s) = ucast (Hire (Stats s) - Fire (Stats s))"
proof -
  from hired_once obtain s where
    h: "Workshop_Hire (Suc 0) (world True fresh_worker 1000) (NewWorkshop 1 100)
          = Some (Returned (Inr (Some 0)) s)"
    and e: "Hire (Stats s) = 1" "Fire (Stats s) = 0" "Doing (Stats s) = 1" by blast
  have r: "reachable 1 100 s" by (rule r_hire [OF r_new h])
  from Doing_is_Hire_minus_Fire [OF r] e r show ?thesis by blast
qed

text \<open>
  Read as integers, \<open>Doing\<close> signed and the two totals unsigned, the equation holds as
  long as the difference fits \<open>int32\<close>.
\<close>

lemma sint_ucast_diff:
  fixes h f :: "64 word"
  assumes "- (2 ^ 31) \<le> uint h - uint f" and "uint h - uint f < 2 ^ 31"
  shows "sint (ucast (h - f) :: 32 word) = uint h - uint f"
proof -
  have "sint (ucast (h - f) :: 32 word) = signed_take_bit 31 (uint (h - f))"
    by (simp add: sint_uint unsigned_ucast_eq signed_take_bit_take_bit)
  also have "uint (h - f) = (uint h - uint f) mod 2 ^ 64"
    by (simp add: uint_word_ariths)
  also have "signed_take_bit 31 ((uint h - uint f) mod 2 ^ 64) = signed_take_bit 31 (uint h - uint f)"
    by (simp add: signed_take_bit_eq_iff_take_bit_eq take_bit_eq_mod mod_mod_cancel)
  also have "\<dots> = uint h - uint f"
    using assms by (simp add: signed_take_bit_int_eq_self_iff)
  finally show ?thesis .
qed

lemma Doing_as_integer:
  assumes "reachable q d s"
    and "- (2 ^ 31) \<le> uint (Hire (Stats s)) - uint (Fire (Stats s))"
    and "uint (Hire (Stats s)) - uint (Fire (Stats s)) < 2 ^ 31"
  shows "sint (Doing (Stats s)) = uint (Hire (Stats s)) - uint (Fire (Stats s))"
proof -
  from reachable_stats_ok [OF assms(1)]
  have "Doing (Stats s) = ucast (Hire (Stats s) - Fire (Stats s))"
    by (simp add: stats_ok_def doing_ok_def Stats_def)
  with sint_ucast_diff [OF assms(2,3)] show ?thesis by simp
qed

text \<open>
  Claim C10. In every reachable pool \<open>Fire(nil)\<close> returns without a panic and leaves the
  pool exactly as it was: nothing is closed, the registry and all counters and the
  published snapshot are unchanged.
\<close>

theorem Fire_nil_noop: "reachable q d s \<Longrightarrow> Workshop_Fire e None s = Returned () s"
  by (drule reachable_nil_free) (simp add: Workshop_Fire_def nil_free_def)

theorem Fire_nil_noop_witness:
  "\<exists>s. reachable 1 100 s \<and> entries s = [(Some 0, 0)] \<and>
        Workshop_Fire (world True fresh_worker 1000) None s = Returned () s"
proof -
  from hired_once obtain s where
    h: "Workshop_Hire (Suc 0) (world True fresh_worker 1000) (NewWorkshop 1 100)
          = Some (Returned (Inr (Some 0)) s)"
    and e: "entries s = [(Some 0, 0)]" by blast
  have r: "reachable 1 100 s" by (rule r_hire [OF r_new h])
  from Fire_nil_noop [OF r] e r show ?thesis by blast
qed

section \<open>Hire when the factory fails\<close>

lemma set_delete_subset: "set (AList.delete k al) \<subseteq> set al"
  by (auto simp: AList.delete_eq)















section \<open>The selection loop of Hire\<close>

subsection \<open>A run that never ends\<close>

text \<open>
  When every worker the factory makes is unhealthy, each pass of \<open>hireLocked\<close> starts
  another one: the new worker is registered, fails its probe and is deleted; the next
  pass finds it as an idle hint, drops the hint, and the factory is called again.
\<close>

lemma spin_pass:
  assumes "infos s = Some []" and "0 < maxQuota s"
    and "case mostFree s of None \<Rightarrow> True | Some a \<Rightarrow> info_jobNum s a = 0 \<and> info_worker s a \<noteq> None"
  shows "\<exists>s'. hire_pass (world False fresh_worker now) s = Again s' \<and> infos s' = Some [] \<and>
              0 < maxQuota s' \<and>
              (case mostFree s' of None \<Rightarrow> True
               | Some a \<Rightarrow> info_jobNum s' a = 0 \<and> info_worker s' a \<noteq> None)"
proof (cases "mostFree s")
  case None
  with assms show ?thesis
    by (simp add: ws_defs world_def fresh_worker_def)
next
  case (Some a)
  with assms obtain i where "info_worker s a = Some i" "info_jobNum s a = 0" by auto
  with Some assms show ?thesis
    by (simp add: ws_defs world_def fresh_worker_def)
qed

lemma hireLocked_spins:
  assumes "infos s = Some []" and "0 < maxQuota s"
    and "case mostFree s of None \<Rightarrow> True | Some a \<Rightarrow> info_jobNum s a = 0 \<and> info_worker s a \<noteq> None"
  shows "hireLocked n (world False fresh_worker now) s = None"
  using assms
proof (induction n arbitrary: s)
  case 0
  show ?case by simp
next
  case (Suc n)
  from spin_pass [OF Suc.prems, of now] obtain s' where
    p: "hire_pass (world False fresh_worker now) s = Again s'" and
    i: "infos s' = Some []" "0 < maxQuota s'"
       "case mostFree s' of None \<Rightarrow> True | Some a \<Rightarrow> info_jobNum s' a = 0 \<and> info_worker s' a \<noteq> None"
    by blast
  from Suc.IH [OF i] p show ?case by simp
qed

lemma Hire_never_returns:
  "Workshop_Hire n (world False fresh_worker 1000) (NewWorkshop 1 100) = None"
  by (simp add: Workshop_Hire_def hireLocked_spins NewWorkshop_def)

subsection \<open>The registry and the cells it names\<close>

lemma scanFree_in:
  "scanFree h m xs = Some a \<Longrightarrow> m = Some a \<or> a \<in> snd ` set xs"
  by (induction h m xs rule: scanFree.induct) (auto split: option.splits if_splits)

lemma scanFree_Some: "m \<noteq> None \<or> xs \<noteq> [] \<Longrightarrow> scanFree h m xs \<noteq> None"
  by (induction h m xs rule: scanFree.induct) (auto split: option.splits)

lemma updateFreeLocked_not_dangling:
  assumes "registry_wf s"
  shows "\<not> dangling (updateFreeLocked s)"
proof (cases "entries s = []")
  case True
  then show ?thesis by (simp add: dangling_def updateFreeLocked_def len_infos_def)
next
  case False
  then obtain a where a: "scanFree (heap s) None (entries s) = Some a"
    using scanFree_Some [of None "entries s" "heap s"] by auto
  from scanFree_in [OF a] obtain k where "(k, a) \<in> set (entries s)" by auto
  with assms have "(info_worker s a, a) \<in> set (entries s)"
    by (auto simp: registry_wf_def)
  with a False show ?thesis
    by (simp add: dangling_def updateFreeLocked_def len_infos_def info_worker_def)
qed

lemma length_delete_less:
  "k \<in> fst ` set al \<Longrightarrow> length (AList.delete k al) < length al"
  by (induction al) (force simp: less_Suc_eq_le length_delete_le)+

lemma heap_frame [simp]:
  "heap (tick s) = heap s"
  "heap (writeStats s) = heap s"
  "heap (updateFreeLocked s) = heap s"
  "heap (delete_infos k s) = heap s"
  "nextAddr (tick s) = nextAddr s"
  "nextAddr (writeStats s) = nextAddr s"
  "nextAddr (updateFreeLocked s) = nextAddr s"
  "nextAddr (delete_infos k s) = nextAddr s"
  "nextAddr (map_info a g s) = nextAddr s"
  "mostFree (tick s) = mostFree s"
  "mostFree (writeStats s) = mostFree s"
  "mostFree (delete_infos k s) = mostFree s"
  "mostFree (map_info a g s) = mostFree s"
  by (simp_all add: tick_def writeStats_def updateFreeLocked_def delete_infos_def map_info_def)

lemma registry_wf_subset:
  "registry_wf s \<Longrightarrow> set (entries s') \<subseteq> set (entries s) \<Longrightarrow> heap s' = heap s \<Longrightarrow>
   nextAddr s' = nextAddr s \<Longrightarrow> registry_wf s'"
  by (auto simp: registry_wf_def info_worker_def)

lemma delete_shrinks_measure:
  assumes wf: "registry_wf s"
    and hint: "mostFree s = Some a" "info_worker s a = Some i"
    and ent: "entries s' = AList.delete (Some i) (entries s)"
    and nd: "Some i \<notin> fst ` set (entries s) \<Longrightarrow> \<not> dangling s'"
  shows "hire_measure s' < hire_measure s"
proof (cases "Some i \<in> fst ` set (entries s)")
  case True
  from length_delete_less [OF True] ent show ?thesis
    by (simp add: hire_measure_def)
next
  case False
  then have "(Some i, a) \<notin> set (entries s)" by force
  with hint have "dangling s" by (simp add: dangling_def)
  moreover from False ent have "entries s' = entries s" by simp
  moreover from nd False have "\<not> dangling s'" by simp
  ultimately show ?thesis by (simp add: hire_measure_def)
qed

lemma dangling_same:
  "mostFree s' = mostFree s \<Longrightarrow> heap s' = heap s \<Longrightarrow> entries s' = entries s \<Longrightarrow>
   dangling s' = dangling s"
  by (simp add: dangling_def info_worker_def split: option.splits)

lemma probe_Again_shape:
  "probe e a s = Again s' \<Longrightarrow>
   \<exists>i. info_worker s a = Some i \<and> \<not> Health e (ticks s) i \<and>
       entries s' = AList.delete (Some i) (entries s) \<and>
       mostFree s' = mostFree s \<and> heap s' = heap s \<and> nextAddr s' = nextAddr s"
  by (auto simp: probe_def Let_def info_worker_def split: option.splits if_splits)

lemma evict_pass:
  assumes wf: "registry_wf s" and hint: "mostFree s = Some a" "info_worker s a = Some i"
    and x: "entries x = AList.delete (Some i) (entries s)" "heap x = heap s" "nextAddr x = nextAddr s"
  shows "registry_wf (updateFreeLocked x) \<and> hire_measure (updateFreeLocked x) < hire_measure s"
proof -
  have wfx: "registry_wf x"
    using wf x set_delete_subset [of "Some i" "entries s"] by (intro registry_wf_subset [OF wf]) auto
  then have "registry_wf (updateFreeLocked x)"
    by (rule registry_wf_subset) simp_all
  moreover have "hire_measure (updateFreeLocked x) < hire_measure s"
    using x updateFreeLocked_not_dangling [OF wfx]
    by (intro delete_shrinks_measure [OF wf hint]) simp_all
  ultimately show ?thesis ..
qed

lemma probe_pass:
  assumes wf: "registry_wf s" and hint: "mostFree s = Some a"
    and y: "entries y = entries s" "heap y = heap s" "nextAddr y = nextAddr s"
    and p: "probe e a (updateFreeLocked y) = Again s'"
  shows "registry_wf s' \<and> hire_measure s' < hire_measure s"
proof -
  from probe_Again_shape [OF p] obtain i where
    i: "info_worker y a = Some i"
    and s': "entries s' = AList.delete (Some i) (entries s)"
      "mostFree s' = mostFree (updateFreeLocked y)" "heap s' = heap s" "nextAddr s' = nextAddr s"
    using y by (auto simp: info_worker_def)
  have wfy: "registry_wf y" using wf y by (intro registry_wf_subset [OF wf]) auto
  have "registry_wf s'"
    using s' set_delete_subset [of "Some i" "entries s"] by (intro registry_wf_subset [OF wf]) auto
  moreover have "hire_measure s' < hire_measure s"
  proof (rule delete_shrinks_measure [OF wf hint _ s'(1)])
    show "info_worker s a = Some i" using i y by (simp add: info_worker_def)
  next
    assume "Some i \<notin> fst ` set (entries s)"
    with s' y have "entries s' = entries (updateFreeLocked y)" by simp
    with s' y have "dangling s' = dangling (updateFreeLocked y)"
      by (intro dangling_same) simp_all
    with updateFreeLocked_not_dangling [OF wfy] show "\<not> dangling s'" by simp
  qed
  ultimately show ?thesis ..
qed

lemma newborn_probe:
  assumes "newborn_healthy e" and "addFn e s = ((Some a, None), s1)"
  shows "probe e a (s1\<lparr>mostFree := Some a\<rparr>) \<noteq> Again s'"
  using assms
  by (auto simp: newborn_healthy_def addFn_def probe_def Let_def tick_def info_worker_def
      split: fres.splits option.splits if_splits)

lemma hire_pass_Again_cases:
  assumes "hire_pass e s = Again s'"
  shows "(\<exists>a i x. mostFree s = Some a \<and> info_worker s a = Some i \<and>
                  entries x = AList.delete (Some i) (entries s) \<and> heap x = heap s \<and>
                  nextAddr x = nextAddr s \<and> s' = updateFreeLocked x) \<or>
         (\<exists>a y. mostFree s = Some a \<and> entries y = entries s \<and> heap y = heap s \<and>
                nextAddr y = nextAddr s \<and> probe e a (updateFreeLocked y) = Again s') \<or>
         (\<exists>a s1. addFn e s = ((Some a, None), s1) \<and> probe e a (s1\<lparr>mostFree := Some a\<rparr>) = Again s')"
proof (cases "mostFree s")
  case None
  with assms show ?thesis
    by (auto simp: hire_pass_def split: if_splits option.splits prod.splits)
next
  case (Some a)
  show ?thesis
  proof (cases "maxQuota s \<le> len_infos s \<or> info_jobNum s a = 0")
    case False
    with Some assms show ?thesis
      by (auto simp: hire_pass_def split: if_splits option.splits prod.splits)
  next
    case True
    note c = this
    show ?thesis
    proof (cases "info_jobNum s a = 0")
      case False
      with c Some assms have "probe e a (updateFreeLocked s) = Again s'"
        by (simp add: hire_pass_def)
      with Some show ?thesis by blast
    next
      case True
      let ?s2 = "tick (s\<lparr>stats := (stats s)\<lparr>Idle := Idle (stats s) - 1\<rparr>\<rparr>)"
      show ?thesis
      proof (cases "idleExpire (heap s a) < FloorTimeNow e (ticks s)")
        case False
        with True Some assms have "probe e a (updateFreeLocked ?s2) = Again s'"
          by (simp add: hire_pass_def Let_def)
        moreover have "entries ?s2 = entries s" "heap ?s2 = heap s" "nextAddr ?s2 = nextAddr s"
          by simp_all
        ultimately show ?thesis using Some by blast
      next
        case exp: True
        with True Some assms obtain i where i: "info_worker s a = Some i"
          by (auto simp: hire_pass_def Let_def info_worker_def split: option.splits)
        let ?s3 = "delete_infos (Some i) ?s2"
        let ?s5 = "?s3\<lparr>closedLog := closedLog ?s3 @ [i],
                       stats := (stats ?s3)\<lparr>Worker := Worker (stats ?s3) - 1\<rparr>\<rparr>"
        from exp True Some assms i have "s' = updateFreeLocked ?s5"
          by (simp add: hire_pass_def Let_def info_worker_def)
        moreover have "entries ?s5 = AList.delete (Some i) (entries s)" "heap ?s5 = heap s"
          "nextAddr ?s5 = nextAddr s"
          by simp_all
        ultimately show ?thesis using Some i by blast
      qed
    qed
  qed
qed

lemma hire_pass_Again_measure:
  assumes wf: "registry_wf s" and nh: "newborn_healthy e" and p: "hire_pass e s = Again s'"
  shows "registry_wf s' \<and> hire_measure s' < hire_measure s"
  using hire_pass_Again_cases [OF p]
proof (elim disjE exE conjE)
  fix a i x
  assume "mostFree s = Some a" "info_worker s a = Some i"
    "entries x = AList.delete (Some i) (entries s)" "heap x = heap s" "nextAddr x = nextAddr s"
    "s' = updateFreeLocked x"
  then show ?thesis using evict_pass [OF wf, of a i x] by simp
next
  fix a y
  assume "mostFree s = Some a" "entries y = entries s" "heap y = heap s" "nextAddr y = nextAddr s"
    "probe e a (updateFreeLocked y) = Again s'"
  then show ?thesis by (rule probe_pass [OF wf])
next
  fix a s1
  assume "addFn e s = ((Some a, None), s1)" "probe e a (s1\<lparr>mostFree := Some a\<rparr>) = Again s'"
  with newborn_probe [OF nh] show ?thesis by blast
qed

lemma hireLocked_ends:
  "registry_wf s \<Longrightarrow> newborn_healthy e \<Longrightarrow> hire_measure s < n \<Longrightarrow> hireLocked n e s \<noteq> None"
proof (induction n arbitrary: s)
  case 0
  then show ?case by simp
next
  case (Suc n)
  show ?case
  proof (cases "hire_pass e s")
    case (Again s1)
    from hire_pass_Again_measure [OF Suc.prems(1,2) Again] Suc.prems(3)
    have "registry_wf s1" "hire_measure s1 < n" by auto
    with Suc.IH [of s1] Suc.prems(2) Again show ?thesis by simp
  next
    case (Finished r)
    then show ?thesis by simp
  qed
qed

lemma factory_pass_ends:
  assumes nh: "newborn_healthy e" and c: "\<not> maxQuota s \<le> len_infos s" "\<not> hint_idle s"
  shows "\<exists>r. hire_pass e s = Finished r"
proof -
  obtain ao eo s1 where a: "addFn e s = ((ao, eo), s1)"
    by (metis prod.exhaust)
  have h: "hire_pass e s =
        (case addFn e s of
           ((_, Some err), s1) \<Rightarrow> Finished (Returned (Inl err) s1)
         | ((None, None), s1) \<Rightarrow> Finished (Panic ''nil pointer dereference'')
         | ((Some a, None), s1) \<Rightarrow> probe e a (s1\<lparr>mostFree := Some a\<rparr>))"
    using c by (simp add: hire_pass_def hint_idle_def)
  show ?thesis
  proof (cases eo)
    case (Some err)
    with a h show ?thesis by (simp split: option.splits)
  next
    case None
    show ?thesis
    proof (cases ao)
      case None
      with \<open>eo = None\<close> a h show ?thesis by simp
    next
      case (Some b)
      with \<open>eo = None\<close> a h have "hire_pass e s = probe e b (s1\<lparr>mostFree := Some b\<rparr>)" by simp
      moreover from newborn_probe [OF nh] a Some \<open>eo = None\<close>
      have "\<And>s'. probe e b (s1\<lparr>mostFree := Some b\<rparr>) \<noteq> Again s'" by blast
      ultimately show ?thesis by (metis hire_pass.exhaust)
    qed
  qed
qed

lemma registry_wf_frame [simp]:
  "registry_wf (stats_update f1 s) = registry_wf s"
  "registry_wf (statsReader_update f2 s) = registry_wf s"
  "registry_wf (mostFree_update f3 s) = registry_wf s"
  "registry_wf (ticks_update f6 s) = registry_wf s"
  "registry_wf (closedLog_update f7 s) = registry_wf s"
  "registry_wf (fnLog_update f8 s) = registry_wf s"
  "registry_wf (closeCh_update f9 s) = registry_wf s"
  "registry_wf (tick s) = registry_wf s"
  "registry_wf (writeStats s) = registry_wf s"
  "registry_wf (updateFreeLocked s) = registry_wf s"
  by (simp_all add: registry_wf_def info_worker_def)

lemma registry_wf_map_info [simp]:
  "(\<And>x. worker (g x) = worker x) \<Longrightarrow> registry_wf (map_info a g s) = registry_wf s"
  by (auto simp: registry_wf_def info_worker_def map_info_def)

lemma registry_wf_delete: "registry_wf s \<Longrightarrow> registry_wf (delete_infos k s)"
  by (rule registry_wf_subset [where s = s]) (simp_all add: set_delete_subset)

lemma registry_wf_probe_Again: "probe e a s = Again s' \<Longrightarrow> registry_wf s \<Longrightarrow> registry_wf s'"
  by (auto simp: probe_def Let_def registry_wf_delete split: option.splits if_splits)

lemma registry_wf_probe_Finished:
  "probe e a s = Finished (Returned r s') \<Longrightarrow> registry_wf s \<Longrightarrow> registry_wf s'"
  by (auto simp: probe_def Let_def split: option.splits if_splits)

lemma set_update_subset: "set (AList.update k v al) \<subseteq> insert (k, v) (set al)"
  by (induction al) auto

lemma registry_wf_addFn:
  assumes "addFn e s = (r, s')" and wf: "registry_wf s"
  shows "registry_wf s'"
proof (cases "newWorkerFunc e (ticks s)")
  case (FOk wk)
  show ?thesis
  proof (cases "infos s")
    case None
    with FOk assms show ?thesis
      by (auto simp: addFn_def Let_def registry_wf_def entries_def tick_def)
  next
    case (Some xs)
    with FOk assms have s': "entries s' = AList.update wk (nextAddr s) xs"
      "heap s' = (heap s)(nextAddr s := \<lparr>worker = wk, jobNum = 0, idleExpire = 0, wg = w_wg s\<rparr>)"
      "nextAddr s' = Suc (nextAddr s)"
      by (auto simp: addFn_def Let_def entries_def tick_def)
    from Some have xs: "entries s = xs" by (simp add: entries_def)
    show ?thesis
      unfolding registry_wf_def
    proof (clarify)
      fix k a
      assume "(k, a) \<in> set (entries s')"
      with s' set_update_subset [of wk "nextAddr s" xs]
      have "(k, a) = (wk, nextAddr s) \<or> (k, a) \<in> set xs" by auto
      then show "info_worker s' a = k \<and> a < nextAddr s'"
      proof
        assume "(k, a) = (wk, nextAddr s)"
        with s' show ?thesis by (simp add: info_worker_def)
      next
        assume "(k, a) \<in> set xs"
        with wf xs have "info_worker s a = k" "a < nextAddr s"
          by (auto simp: registry_wf_def)
        with s' show ?thesis by (simp add: info_worker_def)
      qed
    qed
  qed
next
  case (FErr m)
  with assms show ?thesis by (auto simp: addFn_def)
next
  case (FPanic p)
  with assms show ?thesis by (auto simp: addFn_def)
qed

lemma registry_wf_hire_pass_Again:
  "registry_wf s \<Longrightarrow> hire_pass e s = Again s' \<Longrightarrow> registry_wf s'"
  apply (simp add: hire_pass_def Let_def split: if_splits option.splits prod.splits)
  apply (auto dest!: registry_wf_probe_Again registry_wf_addFn simp: registry_wf_delete)
  done

lemma registry_wf_hire_pass_Finished:
  "registry_wf s \<Longrightarrow> hire_pass e s = Finished (Returned r s') \<Longrightarrow> registry_wf s'"
  apply (simp add: hire_pass_def Let_def split: if_splits option.splits prod.splits)
  apply (auto dest!: registry_wf_probe_Finished registry_wf_addFn simp: registry_wf_delete)
  done

lemma hireLocked_registry_wf:
  "registry_wf s \<Longrightarrow> hireLocked n e s = Some (Returned r s') \<Longrightarrow> registry_wf s'"
  by (rule hireLocked_preserves [where P = registry_wf and e = e])
     (auto dest: registry_wf_hire_pass_Again registry_wf_hire_pass_Finished)

lemma registry_wf_fireLocked:
  "fireLocked e a s = Returned u s' \<Longrightarrow> registry_wf s \<Longrightarrow> registry_wf s'"
  by (auto simp: fireLocked_def free_def Let_def registry_wf_delete
      split: option.splits if_splits result.splits)

lemma registry_wf_refreshLoop:
  "refreshLoop e xs (s, mx, mn, up) = Some (s', mx', mn', up') \<Longrightarrow> registry_wf s \<Longrightarrow> registry_wf s'"
proof (induction xs arbitrary: s mx mn up)
  case Nil
  then show ?case by simp
next
  case (Cons x xs)
  obtain k a where x: "x = (k, a)" by (cases x)
  from Cons.prems show ?case
    unfolding x
    by (auto simp: Let_def registry_wf_delete split: if_splits option.splits
        dest!: Cons.IH)
qed

lemma registry_wf_refreshLocked:
  "refreshLocked e s = Returned u s' \<Longrightarrow> registry_wf s \<Longrightarrow> registry_wf s'"
  by (auto simp: refreshLocked_def Let_def split: option.splits prod.splits if_splits
      dest!: registry_wf_refreshLoop)

lemma registry_wf_Close_locked:
  "Close_locked e s = Returned u s' \<Longrightarrow> registry_wf s'"
proof -
  assume a: "Close_locked e s = Returned u s'"
  then obtain s1 where c: "closeAll (entries s) s = Some s1"
    by (auto simp: Close_locked_def split: option.splits)
  have "registry_wf (s1\<lparr>infos := None\<rparr>)"
    by (simp add: registry_wf_def entries_def)
  with a c show ?thesis
    by (auto simp: Close_locked_def Let_def dest!: registry_wf_refreshLocked)
qed

lemma registry_wf_NewWorkshop: "registry_wf (NewWorkshop q d)"
  by (simp add: NewWorkshop_def registry_wf_def entries_def)

lemma reachable_registry_wf: "reachable q d s \<Longrightarrow> registry_wf s"
  by (rule reachable_invariant [where P = registry_wf])
     (auto intro: hireLocked_registry_wf registry_wf_fireLocked
        registry_wf_refreshLocked registry_wf_Close_locked registry_wf_NewWorkshop)

lemma registered_hint_pass_shrinks:
  assumes nh: "newborn_healthy e" and nd: "\<not> dangling s" and p: "hire_pass e s = Again s'"
  shows "length (entries s') < length (entries s)"
  using hire_pass_Again_cases [OF p]
proof (elim disjE exE conjE)
  fix a i x
  assume h: "mostFree s = Some a" "info_worker s a = Some i"
    and x: "entries x = AList.delete (Some i) (entries s)" "s' = updateFreeLocked x"
  from h nd have "Some i \<in> fst ` set (entries s)" by (force simp: dangling_def)
  from length_delete_less [OF this] x show ?thesis by simp
next
  fix a y
  assume h: "mostFree s = Some a" and y: "entries y = entries s" "heap y = heap s"
    and pr: "probe e a (updateFreeLocked y) = Again s'"
  from probe_Again_shape [OF pr] y obtain i where
    i: "info_worker s a = Some i" and s': "entries s' = AList.delete (Some i) (entries s)"
    by (auto simp: info_worker_def)
  from h i nd have "Some i \<in> fst ` set (entries s)" by (force simp: dangling_def)
  from length_delete_less [OF this] s' show ?thesis by simp
next
  fix a s1
  assume "addFn e s = ((Some a, None), s1)" "probe e a (s1\<lparr>mostFree := Some a\<rparr>) = Again s'"
  with newborn_probe [OF nh] show ?thesis by blast
qed

lemma hireLocked_ends_within_size:
  "newborn_healthy e \<Longrightarrow> hint_registered_for n e s \<Longrightarrow> length (entries s) < n \<Longrightarrow>
   hireLocked n e s \<noteq> None"
proof (induction n arbitrary: s)
  case 0
  then show ?case by simp
next
  case (Suc n)
  show ?case
  proof (cases "hire_pass e s")
    case (Again s1)
    with Suc.prems(2) have nd: "\<not> dangling s" and h: "hint_registered_for n e s1" by simp_all
    from registered_hint_pass_shrinks [OF Suc.prems(1) nd Again] Suc.prems(3)
    have "length (entries s1) < n" by simp
    from Suc.IH [OF Suc.prems(1) h this] Again show ?thesis by simp
  next
    case (Finished r)
    then show ?thesis by simp
  qed
qed

text \<open>
  A pool of quota 2 with two idle workers, worker 0 first in the registry and worker 2
  the hint, and the pass that finds worker 2 unhealthy.
\<close>

lemma two_idle_pool:
  "\<exists>s1 s2 s3 s4 s5.
     Workshop_Hire (Suc 0) (world True fresh_worker 1000) (NewWorkshop 2 100)
       = Some (Returned (Inr (Some 0)) s1) \<and>
     Workshop_Hire (Suc 0) (world True fresh_worker 1000) s1 = Some (Returned (Inr (Some 2)) s2) \<and>
     Workshop_Fire (world True fresh_worker 1000) (Some 2) s2 = Returned () s3 \<and>
     Workshop_Fire (world True fresh_worker 1000) (Some 0) s3 = Returned () s4 \<and>
     entries s4 = [(Some 0, 0), (Some 2, 1)] \<and> mostFree s4 = Some 1 \<and>
     info_worker s4 1 = Some 2 \<and> \<not> dangling s4 \<and>
     hint_registered_for (Suc (Suc (Suc 0))) (world_except 2 (\<lambda>_. FOk (Some 7)) 1000) s4 \<and>
     hire_pass (world_except 2 (\<lambda>_. FOk (Some 7)) 1000) s4 = Again s5 \<and>
     entries s5 = [(Some 0, 0)] \<and> mostFree s5 = Some 0"
  by (simp add: ws_defs world_def fresh_worker_def world_except_def dangling_def)

subsection \<open>The loop ends when new workers are healthy\<close>

text \<open>
  Claim C3, as the code has it. A candidate whose health probe fails is deleted from the
  registry and the selection starts over. From every reachable pool the loop ends,
  provided that each worker the factory returns passes the health probe that follows its
  creation (the factory may also fail). A pass that starts with a hint naming a
  registered worker and does not end the call removes an entry, and a pass that calls
  the factory is the last one: as long as the passes start with the hint nil or
  registered, their number is at most the size of the registry plus one.
\<close>

theorem hireLocked_terminates:
  assumes "reachable q d s" and "newborn_healthy e"
  shows "(\<exists>n r. hireLocked n e s = Some r) \<and>
         (hint_registered_for (length (entries s) + 1) e s \<longrightarrow>
            (\<exists>r. hireLocked (length (entries s) + 1) e s = Some r)) \<and>
         (\<not> dangling pa \<and> hire_pass e pa = Again pa' \<longrightarrow>
            length (entries pa') < length (entries pa)) \<and>
         (\<not> maxQuota pb \<le> len_infos pb \<and> \<not> hint_idle pb \<longrightarrow> (\<exists>r. hire_pass e pb = Finished r)) \<and>
         (info_worker pc a = Some i \<and> \<not> Health e (ticks pc) i \<longrightarrow>
            (\<exists>s'. probe e a pc = Again s' \<and> entries s' = AList.delete (Some i) (entries pc)))"
proof (intro conjI impI)
  have "hire_measure s < Suc (hire_measure s)" by simp
  with reachable_registry_wf [OF assms(1)] assms(2)
  have "hireLocked (Suc (hire_measure s)) e s \<noteq> None"
    by (rule hireLocked_ends)
  then show "\<exists>n r. hireLocked n e s = Some r" by blast
next
  assume "hint_registered_for (length (entries s) + 1) e s"
  with assms(2) have "hireLocked (length (entries s) + 1) e s \<noteq> None"
    by (rule hireLocked_ends_within_size) simp
  then show "\<exists>r. hireLocked (length (entries s) + 1) e s = Some r" by blast
next
  assume "\<not> dangling pa \<and> hire_pass e pa = Again pa'"
  with assms(2) show "length (entries pa') < length (entries pa)"
    by (intro registered_hint_pass_shrinks [of e pa pa']) simp_all
next
  assume "\<not> maxQuota pb \<le> len_infos pb \<and> \<not> hint_idle pb"
  with assms(2) show "\<exists>r. hire_pass e pb = Finished r"
    by (intro factory_pass_ends) simp_all
next
  assume "info_worker pc a = Some i \<and> \<not> Health e (ticks pc) i"
  then show "\<exists>s'. probe e a pc = Again s' \<and> entries s' = AList.delete (Some i) (entries pc)"
    by (simp add: probe_def Let_def)
qed

theorem hireLocked_terminates_witness:
  "\<exists>s s'. reachable 2 100 s \<and> newborn_healthy (world_except 2 (\<lambda>_. FOk (Some 7)) 1000) \<and>
     entries s = [(Some 0, 0), (Some 2, 1)] \<and>
     (\<exists>n r. hireLocked n (world_except 2 (\<lambda>_. FOk (Some 7)) 1000) s = Some r) \<and>
     hint_registered_for (length (entries s) + 1) (world_except 2 (\<lambda>_. FOk (Some 7)) 1000) s \<and>
     (\<exists>r. hireLocked (length (entries s) + 1) (world_except 2 (\<lambda>_. FOk (Some 7)) 1000) s = Some r) \<and>
     \<not> dangling s \<and> hire_pass (world_except 2 (\<lambda>_. FOk (Some 7)) 1000) s = Again s' \<and>
     length (entries s') < length (entries s) \<and>
     \<not> maxQuota (NewWorkshop 2 100) \<le> len_infos (NewWorkshop 2 100) \<and>
     \<not> hint_idle (NewWorkshop 2 100) \<and>
     (\<exists>r. hire_pass (world_except 2 (\<lambda>_. FOk (Some 7)) 1000) (NewWorkshop 2 100) = Finished r) \<and>
     info_worker s 1 = Some 2 \<and> \<not> Health (world_except 2 (\<lambda>_. FOk (Some 7)) 1000) (ticks s) 2 \<and>
     (\<exists>s''. probe (world_except 2 (\<lambda>_. FOk (Some 7)) 1000) 1 s = Again s'' \<and>
            entries s'' = AList.delete (Some 2) (entries s))"
proof -
  let ?W = "world True fresh_worker 1000"
  let ?E = "world_except 2 (\<lambda>_. FOk (Some 7)) 1000"
  from two_idle_pool obtain s1 s2 s3 s s' where
    h1: "Workshop_Hire (Suc 0) ?W (NewWorkshop 2 100) = Some (Returned (Inr (Some 0)) s1)"
    and h2: "Workshop_Hire (Suc 0) ?W s1 = Some (Returned (Inr (Some 2)) s2)"
    and f1: "Workshop_Fire ?W (Some 2) s2 = Returned () s3"
    and f2: "Workshop_Fire ?W (Some 0) s3 = Returned () s"
    and e: "entries s = [(Some 0, 0), (Some 2, 1)]" "info_worker s 1 = Some 2"
    and nd: "\<not> dangling s"
    and hr: "hint_registered_for (Suc (Suc (Suc 0))) ?E s"
    and p: "hire_pass ?E s = Again s'"
    by (elim exE conjE) (rule that, assumption+)
  have r: "reachable 2 100 s"
    by (rule r_fire [OF r_fire [OF r_hire [OF r_hire [OF r_new h1] h2] f1] f2])
  have n: "newborn_healthy ?E"
    by (simp add: newborn_healthy_def world_except_def)
  have l: "length (entries s) + 1 = Suc (Suc (Suc 0))" using e by simp
  have hr': "hint_registered_for (length (entries s) + 1) ?E s"
    unfolding l by (rule hr)
  have c: "\<not> maxQuota (NewWorkshop 2 100) \<le> len_infos (NewWorkshop 2 100)"
    "\<not> hint_idle (NewWorkshop 2 100)"
    "\<not> Health ?E (ticks s) 2"
    by (simp_all add: NewWorkshop_def len_infos_def entries_def hint_idle_def world_except_def)
  note t = hireLocked_terminates [OF r n, where pa = s and pa' = s' and pb = "NewWorkshop 2 100"
      and pc = s and a = 1 and i = 2]
  from t have t1: "\<exists>n r. hireLocked n ?E s = Some r" by (rule conjunct1)
  from t hr' have t2: "\<exists>r. hireLocked (length (entries s) + 1) ?E s = Some r" by blast
  from t nd p have t3: "length (entries s') < length (entries s)" by blast
  from t c have t4: "\<exists>r. hire_pass ?E (NewWorkshop 2 100) = Finished r" by blast
  from t c e have t5: "\<exists>s''. probe ?E 1 s = Again s'' \<and>
      entries s'' = AList.delete (Some 2) (entries s)" by blast
  from r n e t1 hr' t2 nd p t3 c t4 t5 show ?thesis by blast
qed

text \<open>
  The claim as it was stated, for every starting state and within the registry's size
  plus one factory attempt, fails on a new Workshop of quota 1 whose factory makes
  unhealthy workers: the registry is empty, and six passes have not ended the call
  (by \<open>hireLocked_spins\<close> no number of passes does).
\<close>

theorem hireLocked_bound_counterexample:
  "length (entries (NewWorkshop 1 100)) = 0 \<and>
   hireLocked (Suc (Suc (Suc (Suc (Suc (Suc 0)))))) (world False fresh_worker 1000) (NewWorkshop 1 100) = None"
  by (simp add: ws_defs world_def fresh_worker_def)

end
